theory Spec2Isabelle
  imports Main "HOL-Library.Word"
begin

section \<open>Common types\<close>

type_synonym byte = "8 word"

text \<open>
  Every error value, panic and fatal exit of the three source files. A Go \<open>error\<close>
  result is \<open>error option\<close> (\<open>None\<close> is \<open>nil\<close>); a call that panics or exits
  the process returns \<open>Inl\<close>.
\<close>

datatype error =
    EOF
  | BadSeek
  | NegativePosition
  | WRITING_TO_CLOSED_STREAM
  | CORRUPTED_HEADER
  | CORRUPTED_EVENT
  | NoSuchFile
  | RETRIEVED_OPEN_STREAM
  | PeerUnavailable
  | PanicMakeSliceLen
  | PanicSliceBounds
  | PanicNilStream
  | Fatal error

section \<open>blocks.Reader (src/blocks/reader.go)\<close>

text \<open>
  Modelled from the spec: \<open>headerLen\<close> and \<open>fixedInt\<close> live in a file of package
  \<open>blocks\<close> that is not under src/. The spec gives the header width: 2 bytes if the
  block size fits in 16 bits, 4 bytes if it fits in 32, otherwise 8 bytes, little-endian
  unsigned. The type switch of \<open>parseHeader\<close> (uint16, uint32, uint64) agrees with it.
\<close>

definition headerLen :: "nat \<Rightarrow> nat" where
  "headerLen blockSize =
     (if blockSize < 2 ^ 16 then 2 else if blockSize < 2 ^ 32 then 4 else 8)"

text \<open>\<open>binary.LittleEndian\<close>: the unsigned value of a byte string, and its inverse.\<close>

fun le_decode :: "byte list \<Rightarrow> nat" where
  "le_decode [] = 0"
| "le_decode (b # bs) = unat b + 256 * le_decode bs"

fun le_encode :: "nat \<Rightarrow> nat \<Rightarrow> byte list" where
  "le_encode 0 n = []"
| "le_encode (Suc w) n = of_nat (n mod 256) # le_encode w (n div 256)"

text \<open>
  \<open>bytes.Reader\<close>, the \<open>io.ReadSeeker\<close> that \<open>NewByteReader\<close> wraps: the byte
  string \<open>s\<close> and the read position \<open>i\<close> (fields \<open>br_s\<close>, \<open>br_i\<close>). \<open>Read\<close> into a slice of \<open>k\<close> bytes
  returns \<open>(0, EOF)\<close> at the end and otherwise copies what is there, without error.
\<close>

record bytes_Reader =
  br_s :: "byte list"
  br_i :: nat

definition bytes_Reader_Read :: "bytes_Reader \<Rightarrow> nat \<Rightarrow> byte list \<times> error option \<times> bytes_Reader" where
  "bytes_Reader_Read rd k =
     (if br_i rd \<ge> length (br_s rd) then ([], Some EOF, rd)
      else (let block = take k (drop (br_i rd) (br_s rd))
            in (block, None, rd\<lparr>br_i := br_i rd + length block\<rparr>)))"

text \<open>
  The \<open>Reader\<close> struct. \<open>buffer\<close> and \<open>scratch\<close> are \<open>bytes.Buffer\<close>s, modelled by
  their unread bytes. \<open>allocated\<close> records whether \<open>buffer\<close> has a backing array yet:
  \<open>new(bytes.Buffer)\<close> has none (capacity 0), and only a write of at least one byte
  allocates one. Go checks the upper bound of a slice expression against the capacity,
  so the flag is what decides whether \<open>Peek\<close> can panic.
\<close>

record Reader =
  buffer :: "byte list"
  allocated :: bool
  scratch :: "byte list"
  reader :: bytes_Reader
  blockSize :: nat

definition NewReader :: "bytes_Reader \<Rightarrow> nat \<Rightarrow> Reader" where
  "NewReader r bsz = \<lparr>buffer = [], allocated = False, scratch = [], reader = r, blockSize = bsz\<rparr>"

definition NewByteReader :: "byte list \<Rightarrow> nat \<Rightarrow> Reader" where
  "NewByteReader b bsz = NewReader \<lparr>br_s = b, br_i = 0\<rparr> bsz"

text \<open>
  \<open>parseHeader\<close>: the header read little-endian into an unsigned integer of the header's
  width, then converted to \<open>int\<close> (64 bits): a uint64 of \<open>2^63\<close> or more becomes negative.
\<close>

definition parseHeader :: "Reader \<Rightarrow> byte list \<Rightarrow> int" where
  "parseHeader r head =
     (let num = le_decode head
      in if headerLen (blockSize r) = 8 \<and> num \<ge> 2 ^ 63 then int num - 2 ^ 64 else int num)"

text \<open>
  \<open>parse\<close>: \<open>head\<close> is a zeroed slice of \<open>headerLen\<close> bytes that \<open>scratch.Read\<close> fills
  as far as it can; \<open>make\<close> panics on a negative length; \<open>scratch.Read(body)\<close> takes
  at most the declared length; what it took goes to \<open>buffer\<close>. Whatever else is in
  \<open>scratch\<close> stays there.
\<close>

definition parse :: "Reader \<Rightarrow> error + Reader" where
  "parse r =
     (let hl = headerLen (blockSize r);
          got = take hl (scratch r);
          head = got @ replicate (hl - length got) 0;
          scratch1 = drop hl (scratch r);
          len = parseHeader r head
      in if len < 0 then Inl PanicMakeSliceLen
         else (let body = take (nat len) scratch1
               in Inr (r\<lparr>scratch := drop (nat len) scratch1,
                         buffer := buffer r @ body,
                         allocated := (allocated r \<or> body \<noteq> [])\<rparr>)))"

text \<open>
  \<open>fetch\<close>: the loop reads one physical block per round until \<open>buffer\<close> holds
  \<open>length\<close> bytes or the underlying reader reports an error. The result is the error
  of \<open>fetch\<close> (\<open>None\<close> for \<open>nil\<close>) and the reader afterwards, or a panic of \<open>parse\<close>.
\<close>

function fetch :: "Reader \<Rightarrow> int \<Rightarrow> error + (error option \<times> Reader)" where
  "fetch r len =
     (if int (length (buffer r)) < len then
        (case bytes_Reader_Read (reader r) (headerLen (blockSize r) + blockSize r) of
           (block, err, rd) \<Rightarrow>
             (let r1 = r\<lparr>reader := rd, scratch := scratch r @ block\<rparr>
              in case (if length block > headerLen (blockSize r) then parse r1 else Inr r1) of
                   Inl p \<Rightarrow> Inl p
                 | Inr r2 \<Rightarrow> (if err \<noteq> None then Inr (err, r2) else fetch r2 len)))
      else Inr (None, r))"
  by pat_completeness auto
termination
proof (relation "measure (\<lambda>(r, len). length (br_s (reader r)) - br_i (reader r))")
  show "wf (measure (\<lambda>(r, len). length (br_s (reader r)) - br_i (reader r)))"
    by simp
next
  fix r :: Reader and len :: int and x block y err rd r1 r2
  assume rd: "(block, y) = bytes_Reader_Read (reader r) (headerLen (blockSize r) + blockSize r)"
    and y: "(err, rd) = y"
    and r1: "r1 = r\<lparr>reader := rd, scratch := scratch r @ block\<rparr>"
    and r2: "(if headerLen (blockSize r) < length block then parse r1 else Inr r1) = Inr r2"
    and ok: "\<not> err \<noteq> None"
  have hl: "0 < headerLen (blockSize r)"
    by (simp add: headerLen_def)
  from rd y ok have more: "br_i (reader r) < length (br_s (reader r))"
    by (auto simp: bytes_Reader_Read_def split: if_splits)
  from rd y more hl have adv: "br_s rd = br_s (reader r) \<and> br_i rd > br_i (reader r)"
    by (auto simp: bytes_Reader_Read_def Let_def split: if_splits)
  have "reader r2 = rd"
    using r2 r1 by (auto simp: parse_def Let_def split: if_splits)
  with adv more show "((r2, len), (r, len)) \<in> measure (\<lambda>(r, len). length (br_s (reader r)) - br_i (reader r))"
    by (simp, arith)
qed

declare fetch.simps [simp del]

text \<open>
  \<open>Read(p)\<close> with \<open>k = len(p)\<close>: the error of \<open>fetch\<close> is dropped, then
  \<open>buffer.Read(p)\<close> hands out at most \<open>k\<close> bytes: \<open>EOF\<close> from an empty buffer when
  \<open>k > 0\<close>, no error otherwise. The result is the bytes put into \<open>p\<close>, the error and
  the reader afterwards.
\<close>

definition Read :: "Reader \<Rightarrow> nat \<Rightarrow> error + (byte list \<times> error option \<times> Reader)" where
  "Read r k =
     (case fetch r (int k) of
        Inl p \<Rightarrow> Inl p
      | Inr (_, r1) \<Rightarrow>
          (if buffer r1 = [] then Inr ([], (if k = 0 then None else Some EOF), r1)
           else Inr (take k (buffer r1), None, r1\<lparr>buffer := drop k (buffer r1)\<rparr>)))"

text \<open>Successive \<open>Read\<close> calls with buffers of the given sizes: the chunks handed out.\<close>

fun Reads :: "Reader \<Rightarrow> nat list \<Rightarrow> error + byte list list" where
  "Reads r [] = Inr []"
| "Reads r (k # ks) =
     (case Read r k of
        Inl p \<Rightarrow> Inl p
      | Inr (chunk, _, r1) \<Rightarrow>
          (case Reads r1 ks of Inl p \<Rightarrow> Inl p | Inr chunks \<Rightarrow> Inr (chunk # chunks)))"

text \<open>
  \<open>Peek(n)\<close> returns \<open>r.buffer.Bytes()[:n]\<close> after \<open>fetch(n)\<close>. Within the length
  of the buffer that is its first \<open>n\<close> bytes. Beyond the length, Go panics when \<open>n\<close>
  exceeds the capacity of the slice: certainly for a negative \<open>n\<close> and for a buffer that
  never got a backing array; for an allocated buffer the outcome depends on the spare
  capacity behind the unread bytes, which the model does not track
  (\<open>BeyondLength\<close>).
\<close>

datatype peeked = Slice "byte list" | SliceBoundsPanic | BeyondLength

definition Peek :: "Reader \<Rightarrow> int \<Rightarrow> error + (peeked \<times> Reader)" where
  "Peek r n =
     (case fetch r n of
        Inl p \<Rightarrow> Inl p
      | Inr (_, r1) \<Rightarrow>
          (if n < 0 then Inr (SliceBoundsPanic, r1)
           else if nat n \<le> length (buffer r1) then Inr (Slice (take (nat n) (buffer r1)), r1)
           else if \<not> allocated r1 then Inr (SliceBoundsPanic, r1)
           else Inr (BeyondLength, r1)))"

text \<open>
  The write side is not under src/. Modelled from the spec: a block is
  \<open>header(payload_len) || payload || padding\<close>, where \<open>payload_len \<le> blockSize\<close> and
  \<open>header_width + blockSize\<close> is the physical block width. A block is given by its
  payload and its padding bytes.
\<close>

definition physical_block :: "nat \<Rightarrow> byte list \<times> byte list \<Rightarrow> byte list" where
  "physical_block bsz blk = le_encode (headerLen bsz) (length (fst blk)) @ fst blk @ snd blk"

definition well_formed_block :: "nat \<Rightarrow> byte list \<times> byte list \<Rightarrow> bool" where
  "well_formed_block bsz blk \<longleftrightarrow> length (fst blk) + length (snd blk) = bsz"

definition physical_blocks :: "nat \<Rightarrow> (byte list \<times> byte list) list \<Rightarrow> byte list" where
  "physical_blocks bsz blks = concat (map (physical_block bsz) blks)"

definition payloads :: "(byte list \<times> byte list) list \<Rightarrow> byte list" where
  "payloads blks = concat (map fst blks)"

text \<open>Every block but the last carries exactly \<open>blockSize\<close> payload bytes.\<close>

definition full_but_last :: "nat \<Rightarrow> (byte list \<times> byte list) list \<Rightarrow> bool" where
  "full_but_last bsz blks \<longleftrightarrow> list_all (\<lambda>blk. length (fst blk) = bsz) (butlast blks)"

text \<open>
  What a reader still has to deliver: the bytes of the underlying reader that are not
  read yet, and the invariant of a reader over physical blocks \<open>qs\<close> of which all but
  the last are full: \<open>scratch\<close> is empty while blocks remain, and \<open>L\<close> is the buffer
  followed by the payloads to come.
\<close>

definition remaining :: "Reader \<Rightarrow> byte list" where
  "remaining r = drop (br_i (reader r)) (br_s (reader r))"

definition reader_inv :: "nat \<Rightarrow> Reader \<Rightarrow> byte list \<Rightarrow> bool" where
  "reader_inv bsz r L \<longleftrightarrow>
     blockSize r = bsz \<and>
     (if bsz = 0 then buffer r = [] \<and> L = []
      else (\<exists>qs. list_all (well_formed_block bsz) qs \<and> full_but_last bsz qs \<and>
                 remaining r = physical_blocks bsz qs \<and>
                 (qs = [] \<or> scratch r = []) \<and>
                 L = buffer r @ payloads qs))"

section \<open>stream.openStream (package stream, in src/cluster/rotate_command.go)\<close>

type_synonym int64 = "64 word"

text \<open>
  An event of package \<open>stream\<close>: its payload and, per index label it carries, the offset
  of the previous event of the same file with that label (0 if none). \<open>newEvent\<close>,
  \<open>push\<close>, \<open>pullEvent\<close> and \<open>length\<close> of this package are not under src/ (the
  \<open>pullEvent\<close> of src/cmd/esdb-reader.go is another package's, over a block reader).
  \<open>event.offsets[index]\<close> reads a Go map: a missing key gives 0.
\<close>

record Event =
  data :: "byte list"
  offsets :: "string \<rightharpoonup> int64"

definition newEvent :: "byte list \<Rightarrow> (string \<rightharpoonup> int64) \<Rightarrow> Event" where
  "newEvent d offs = \<lparr>data = d, offsets = offs\<rparr>"

definition back_offset :: "Event \<Rightarrow> string \<Rightarrow> int64" where
  "back_offset event index = (case offsets event index of Some off \<Rightarrow> off | None \<Rightarrow> 0)"

text \<open>
  The \<open>openStream\<close> struct (fields \<open>s.stream\<close>, \<open>s.tails\<close>, \<open>s.closed\<close>,
  \<open>s.offset\<close>, \<open>s.length\<close>). The file behind \<open>s.stream\<close> is modelled by the events
  it holds: the map from the offset at which an encoded event starts to that event.
  \<open>Seek(off, 0)\<close> followed by \<open>pullEvent\<close> is the lookup at \<open>off\<close>; where no event
  starts, decoding fails. Offsets are \<open>int64\<close>: 64-bit words compared as signed
  numbers. \<open>s.length\<close> counts events from 0 and is a natural number.
\<close>

record openStream =
  s_stream :: "int64 \<rightharpoonup> Event"
  s_tails :: "string \<rightharpoonup> int64"
  s_closed :: bool
  s_offset :: int64
  s_length :: nat

definition pullEvent :: "(int64 \<rightharpoonup> Event) \<Rightarrow> int64 \<Rightarrow> error + Event" where
  "pullEvent f off = (case f off of Some event \<Rightarrow> Inr event | None \<Rightarrow> Inl EOF)"

definition Closed :: "openStream \<Rightarrow> bool" where
  "Closed st = s_closed st"

text \<open>
  \<open>createOpenStream\<close> writes \<open>MAGIC_HEADER\<close> at position 0; the constant is not under
  src/, so its length is a parameter.
\<close>

definition createOpenStream :: "nat \<Rightarrow> openStream" where
  "createOpenStream magic_header_len =
     \<lparr>s_stream = Map.empty, s_tails = Map.empty, s_closed = False,
      s_offset = of_nat magic_header_len, s_length = 0\<rparr>"

text \<open>The two loops of \<open>Write\<close> over \<open>indexes\<close>: \<open>m[index] = g(index)\<close> for each.\<close>

fun set_each :: "('k \<Rightarrow> 'v) \<Rightarrow> 'k list \<Rightarrow> ('k \<rightharpoonup> 'v) \<Rightarrow> ('k \<rightharpoonup> 'v)" where
  "set_each g [] m = m"
| "set_each g (index # indexes) m = set_each g indexes (m(index \<mapsto> g index))"

text \<open>
  \<open>Write\<close>. \<open>esize\<close> is the number of bytes \<open>event.push\<close> encodes an event into (the
  codec is not under src/); writing to the in-memory buffer and to the file does not
  fail in the model, \<open>Seek\<close> fails on a negative position, as every \<open>io.Seeker\<close> does.
  The result is the number of bytes written and the stream afterwards; on an error the
  source returns before it changes the stream.
\<close>

definition Write :: "(Event \<Rightarrow> nat) \<Rightarrow> openStream \<Rightarrow> byte list \<Rightarrow> string list \<Rightarrow> error + (nat \<times> openStream)" where
  "Write esize st body indexes =
     (if Closed st then Inl WRITING_TO_CLOSED_STREAM
      else if s_offset st <s 0 then Inl NegativePosition
      else
        (let offs = set_each (\<lambda>index. case s_tails st index of Some off \<Rightarrow> off | None \<Rightarrow> 0)
                      indexes Map.empty;
             event = newEvent body offs;
             written = esize event
         in Inr (written,
                 st\<lparr>s_stream := (s_stream st)(s_offset st \<mapsto> event),
                    s_tails := set_each (\<lambda>index. s_offset st) indexes (s_tails st),
                    s_offset := s_offset st + of_nat written,
                    s_length := s_length st + 1\<rparr>)))"

text \<open>
  \<open>ScanIndex\<close>. The scanner is a callback with captured state: it takes its state and
  the event and returns its result and its new state. The \<open>Scanner\<close> type is not under
  src/; the callbacks that \<open>DB.Scan\<close> passes return a bool. \<open>ScanIndex\<close> calls
  \<open>scanner(event)\<close> as a statement, so whatever it returns is dropped. The loop runs
  while \<open>off > 0\<close> and may not end on a file whose back-pointers form a cycle: \<open>fuel\<close>
  bounds the number of events read, and \<open>None\<close> means the loop was still running when
  it ran out. The result is the returned error and the scanner's final state.
\<close>

fun ScanIndex_loop ::
  "nat \<Rightarrow> (int64 \<rightharpoonup> Event) \<Rightarrow> string \<Rightarrow> ('a \<Rightarrow> Event \<Rightarrow> bool \<times> 'a) \<Rightarrow> int64 \<Rightarrow> 'a \<Rightarrow> (error option \<times> 'a) option" where
  "ScanIndex_loop 0 f index scanner off a = (if 0 <s off then None else Some (None, a))"
| "ScanIndex_loop (Suc fuel) f index scanner off a =
     (if 0 <s off then
        (case pullEvent f off of
           Inr event \<Rightarrow> ScanIndex_loop fuel f index scanner (back_offset event index) (snd (scanner a event))
         | Inl err \<Rightarrow> Some (Some err, a))
      else Some (None, a))"

definition ScanIndex ::
  "nat \<Rightarrow> openStream \<Rightarrow> string \<Rightarrow> ('a \<Rightarrow> Event \<Rightarrow> bool \<times> 'a) \<Rightarrow> 'a \<Rightarrow> (error option \<times> 'a) option" where
  "ScanIndex fuel st index scanner a =
     ScanIndex_loop fuel (s_stream st) index scanner
       (case s_tails st index of Some off \<Rightarrow> off | None \<Rightarrow> 0) a"

text \<open>
  \<open>Close\<close> writes the end-of-events marker, the table of tails and the footer behind
  the events and sets \<open>s.closed\<close>; on a closed stream it does nothing. None of what it
  writes is an event, and the writes do not fail in the model.
\<close>

definition Close :: "openStream \<Rightarrow> error + openStream" where
  "Close st = (if Closed st then Inr st else Inr (st\<lparr>s_closed := True\<rparr>))"

text \<open>
  A stream built by a sequence of \<open>Write\<close> calls on a fresh stream; a call that fails
  leaves the stream as it was.
\<close>

fun Writes :: "(Event \<Rightarrow> nat) \<Rightarrow> openStream \<Rightarrow> (byte list \<times> string list) list \<Rightarrow> openStream" where
  "Writes esize st [] = st"
| "Writes esize st (w # ws) =
     (case Write esize st (fst w) (snd w) of
        Inl err \<Rightarrow> Writes esize st ws
      | Inr (written, st') \<Rightarrow> Writes esize st' ws)"

text \<open>
  Following the back-pointers of \<open>index\<close> from \<open>off\<close> reaches an offset that is not
  positive, or an offset where no event can be read, within \<open>n\<close> hops.
\<close>

fun chain_within :: "nat \<Rightarrow> (int64 \<rightharpoonup> Event) \<Rightarrow> string \<Rightarrow> int64 \<Rightarrow> bool" where
  "chain_within 0 f index off = (\<not> 0 <s off)"
| "chain_within (Suc n) f index off =
     (if 0 <s off then
        (case f off of Some event \<Rightarrow> chain_within n f index (back_offset event index) | None \<Rightarrow> True)
      else True)"

text \<open>
  The invariant of a stream built by writes: events start at offsets that are not
  negative and, while the write position has not overflowed, lie below it; every
  back-pointer is 0 or the smaller offset of another event; every tail is the offset of
  an event; and every chain ends within \<open>s.length\<close> hops.
\<close>

definition stream_inv :: "openStream \<Rightarrow> bool" where
  "stream_inv st \<longleftrightarrow>
     (\<forall>off event. s_stream st off = Some event \<longrightarrow>
        0 \<le>s off \<and> (0 \<le>s s_offset st \<longrightarrow> off <s s_offset st) \<and>
        (\<forall>index v. offsets event index = Some v \<longrightarrow>
           v = 0 \<or> (v <s off \<and> s_stream st v \<noteq> None)) \<and>
        (\<forall>index. chain_within (s_length st) (s_stream st) index off)) \<and>
     (\<forall>index t. s_tails st index = Some t \<longrightarrow> s_stream st t \<noteq> None)"

text \<open>
  The chain of an index label from an offset, in the words of the spec: while the offset
  is positive, the event at the offset is read and its own back-pointer for the label is
  the next offset. \<open>chain_from f index off events final\<close> says that the chain from
  \<open>off\<close> consists of exactly \<open>events\<close>, in this order, and then ends: at an offset
  that is not positive (\<open>final = None\<close>), or at a positive offset where no event can be
  read (\<open>final\<close> is the error of the read).
\<close>

fun chain_from :: "(int64 \<rightharpoonup> Event) \<Rightarrow> string \<Rightarrow> int64 \<Rightarrow> Event list \<Rightarrow> error option \<Rightarrow> bool" where
  "chain_from f index off [] final =
     (if 0 <s off then (case pullEvent f off of Inl err \<Rightarrow> final = Some err | Inr event \<Rightarrow> False)
      else final = None)"
| "chain_from f index off (event # events) final =
     (0 <s off \<and> pullEvent f off = Inr event \<and>
      chain_from f index (back_offset event index) events final)"

text \<open>A stream of two events that both carry the label \<open>u:1\<close>, each encoded in 2 bytes.\<close>

definition two_events :: openStream where
  "two_events = Writes (\<lambda>event. 2) (createOpenStream 10) [([97], [''u:1'']), ([98], [''u:1''])]"

section \<open>cluster.DB (package cluster, in src/cmd/esdb-reader.go)\<close>

type_synonym commit = "64 word"

type_synonym ino = nat

text \<open>
  \<open>DB\<close> drives its stream files through the \<open>stream.Stream\<close> interface of a later
  version of package \<open>stream\<close> than the one under src/: \<open>ScanIndex\<close> and \<open>Iterate\<close>
  take a start offset there, \<open>Write\<close> takes a map of index names to values, and
  \<open>stream.New\<close>, \<open>stream.Open\<close>, \<open>stream.Serialize\<close>, \<open>Event.Next\<close> and
  \<open>RecoverStream\<close> are not under src/ either. The interface is therefore a parameter of
  every \<open>DB\<close> operation: a record of functions over the type \<open>'strm\<close> of stream
  files. A scanner is a callback with captured state, as for \<open>openStream\<close>; the
  closures that \<open>DB.Scan\<close> and \<open>DB.Iterate\<close> pass capture the locals \<open>offset\<close> and
  \<open>stopped\<close> besides the state \<open>'a\<close> of the caller's scanner, which fixes the state
  types below. \<open>stream_Serialize\<close> gives the length of the serialised event, which is
  all \<open>DB.Write\<close> uses; \<open>RecoverStream\<close> gives the file a peer returns for a commit.
\<close>

record ('strm, 'a) Stream =
  stream_New :: "'strm"
  stream_Open :: "'strm \<Rightarrow> error + 'strm"
  stream_Closed :: "'strm \<Rightarrow> bool"
  stream_Close :: "'strm \<Rightarrow> error + 'strm"
  stream_Write :: "'strm \<Rightarrow> byte list \<Rightarrow> (string \<times> string) list \<Rightarrow> error + (nat \<times> 'strm)"
  stream_ScanIndex ::
    "'strm \<Rightarrow> string \<Rightarrow> string \<Rightarrow> int64 \<Rightarrow>
     (int64 \<times> bool \<times> 'a \<Rightarrow> Event \<Rightarrow> bool \<times> int64 \<times> bool \<times> 'a) \<Rightarrow>
     int64 \<times> bool \<times> 'a \<Rightarrow> error option \<times> int64 \<times> bool \<times> 'a"
  stream_Iterate ::
    "'strm \<Rightarrow> int64 \<Rightarrow> (bool \<times> 'a \<Rightarrow> Event \<Rightarrow> bool \<times> bool \<times> 'a) \<Rightarrow>
     bool \<times> 'a \<Rightarrow> (int64 \<times> error option) \<times> bool \<times> 'a"
  event_Next :: "Event \<Rightarrow> string \<Rightarrow> string \<Rightarrow> int64"
  stream_Serialize :: "byte list \<Rightarrow> (string \<times> string) list \<Rightarrow> nat"
  RecoverStream :: "commit \<Rightarrow> error + 'strm"

text \<open>
  The \<open>DB\<close> struct (fields \<open>db.dir\<close>, \<open>db.closed\<close>, \<open>db.current\<close>, ...) together
  with the part of the world it acts on. \<open>db.stream\<close> is a pointer to the live stream
  object, whose file may be unlinked or replaced while the pointer is held, so stream
  files are kept in a store \<open>files\<close> addressed by inode number: \<open>db_stream\<close> holds the
  inode of the live stream (\<open>None\<close> for \<open>nil\<close>), \<open>disk\<close> maps a commit to the inode
  at \<open>path(commit)\<close> and \<open>tmpdisk\<close> to the one at \<open>compressedpath(commit)\<close> (both
  paths are injective in the commit), and \<open>fresh\<close> is the next unused inode. The cache
  \<open>db.streams\<close> holds handles that are only read, by value; a \<open>nil\<close> entry and a
  missing entry are the same \<open>None\<close>. \<open>snapshots\<close> lists the \<open>TakeSnapshotFrom\<close>
  requests handed to the consensus layer. The timers run the function they are given.
\<close>

record 'strm DB =
  db_dir :: string
  db_closed :: "commit list"
  db_current :: commit
  db_MostRecent :: int64
  db_RotateThreshold :: int64
  db_SnapshotBuffer :: commit
  db_stream :: "ino option"
  db_streams :: "commit \<rightharpoonup> 'strm"
  db_mockoffset :: int64
  files :: "ino \<Rightarrow> 'strm"
  disk :: "commit \<rightharpoonup> ino"
  tmpdisk :: "commit \<rightharpoonup> ino"
  fresh :: ino
  snapshots :: "(commit \<times> commit) list"

definition addClosed :: "'strm DB \<Rightarrow> commit \<Rightarrow> 'strm DB" where
  "addClosed db commit =
     (if commit \<in> set (db_closed db) then db
      else db\<lparr>db_closed := db_closed db @ [commit]\<rparr>)"

text \<open>
  \<open>setCurrent\<close>: \<open>os.Remove\<close> unlinks the file at \<open>path(commit)\<close> if there is one;
  \<open>stream.New\<close> then creates it and cannot find it existing. The file system of the
  model has no other failure, so the two \<open>log.Fatal\<close> calls are not reached.
\<close>

definition setCurrent :: "('strm, 'a) Stream \<Rightarrow> 'strm DB \<Rightarrow> commit \<Rightarrow> 'strm DB" where
  "setCurrent ops db commit =
     db\<lparr>db_current := commit,
        db_mockoffset := 10,
        files := (files db)(fresh db := stream_New ops),
        disk := (disk db)(commit \<mapsto> fresh db),
        fresh := Suc (fresh db),
        db_stream := Some (fresh db)\<rparr>"

text \<open>
  \<open>snapshot\<close> starts a goroutine that asks the consensus layer for a snapshot
  \<open>SnapshotBuffer\<close> indexes back, clamped at 0; the model records the request.
\<close>

definition snapshot :: "'strm DB \<Rightarrow> commit \<Rightarrow> commit \<Rightarrow> 'strm DB" where
  "snapshot db index term =
     db\<lparr>snapshots := snapshots db @
           [(if db_SnapshotBuffer db < index then index - db_SnapshotBuffer db else 0, term)]\<rparr>"

definition forgetStream :: "'strm DB \<Rightarrow> commit \<Rightarrow> 'strm DB" where
  "forgetStream db commit = db\<lparr>db_streams := (db_streams db)(commit := None)\<rparr>"

text \<open>
  \<open>stream.Open(db.path(commit))\<close>: "no such file or directory" when nothing is at
  the path, else whatever opening the file there gives.
\<close>

definition open_path :: "('strm, 'a) Stream \<Rightarrow> 'strm DB \<Rightarrow> commit \<Rightarrow> 'strm option \<times> error option" where
  "open_path ops db commit =
     (case disk db commit of
        None \<Rightarrow> (None, Some NoSuchFile)
      | Some n \<Rightarrow>
          (case stream_Open ops (files db n) of
             Inl err \<Rightarrow> (None, Some err)
           | Inr st \<Rightarrow> (Some st, None)))"

text \<open>
  Modelled from the spec: \<open>RecoverStream\<close> is not under src/. It fetches a closed stream
  file from a remote peer, stores it in the directory and returns an opened handle.
\<close>

definition recover_path ::
  "('strm, 'a) Stream \<Rightarrow> 'strm DB \<Rightarrow> commit \<Rightarrow> ('strm option \<times> error option) \<times> 'strm DB" where
  "recover_path ops db commit =
     (case RecoverStream ops commit of
        Inl err \<Rightarrow> ((None, Some err), db)
      | Inr st \<Rightarrow>
          ((Some st, None),
           db\<lparr>files := (files db)(fresh db := st),
              disk := (disk db)(commit \<mapsto> fresh db),
              fresh := Suc (fresh db)\<rparr>))"

text \<open>
  \<open>retrieveStream\<close>: the live stream for the current commit, else the cached handle,
  else the file at the path, which counts as missing when it is absent or still open and
  is then recovered from a peer if \<open>fetchMissing\<close> is set. The result is what the call
  returns, \<open>(nil, err)\<close> as \<open>Inl err\<close> and \<open>(s, nil)\<close> as \<open>Inr s\<close> with
  \<open>None\<close> for a \<open>nil\<close> stream, and the state afterwards.
\<close>

definition retrieveStream ::
  "('strm, 'a) Stream \<Rightarrow> 'strm DB \<Rightarrow> commit \<Rightarrow> bool \<Rightarrow> (error + 'strm option) \<times> 'strm DB" where
  "retrieveStream ops db commit fetchMissing =
     (if db_current db = commit \<and> db_stream db \<noteq> None
      then (Inr (Some (files db (the (db_stream db)))), db)
      else if db_streams db commit \<noteq> None then (Inr (db_streams db commit), db)
      else
        (let opened = open_path ops db commit;
             is_open = (case fst opened of Some st \<Rightarrow> \<not> stream_Closed ops st | None \<Rightarrow> False);
             missing = (snd opened = Some NoSuchFile \<or> is_open);
             found = (if is_open then (None, snd opened) else opened);
             got = (if missing \<and> fetchMissing then recover_path ops db commit else (found, db))
         in case snd (fst got) of
              None \<Rightarrow> (Inr (fst (fst got)), (snd got)\<lparr>db_streams := (db_streams (snd got))(commit := fst (fst got))\<rparr>)
            | Some err \<Rightarrow> (Inl err, snd got)))"

text \<open>
  \<open>Write\<close>. \<open>log.Fatal\<close> ends the process: \<open>Inl (Fatal err)\<close>. \<open>Inr\<close> is the
  return of a \<open>nil\<close> error, with the state afterwards.
\<close>

definition DB_Write ::
  "('strm, 'a) Stream \<Rightarrow> 'strm DB \<Rightarrow> commit \<Rightarrow> byte list \<Rightarrow> (string \<times> string) list \<Rightarrow> int64 \<Rightarrow> error + 'strm DB" where
  "DB_Write ops db commit body indexes timestamp =
     (if commit \<le> db_current db then Inr db
      else
        (case db_stream db of
           None \<Rightarrow> Inr (db\<lparr>db_mockoffset := db_mockoffset db + of_nat (stream_Serialize ops body indexes)\<rparr>)
         | Some n \<Rightarrow>
             (case stream_Write ops (files db n) body indexes of
                Inl err \<Rightarrow> Inl (Fatal err)
              | Inr written \<Rightarrow>
                  Inr (db\<lparr>files := (files db)(n := snd written),
                          db_MostRecent := (if db_MostRecent db <s timestamp then timestamp
                                            else db_MostRecent db)\<rparr>))))"

text \<open>
  \<open>Rotate\<close>. An error of \<open>retrieveStream\<close> other than "no such file or directory"
  is fatal. A closed stream at \<open>commit\<close> is adopted; otherwise the live stream, if any,
  is closed and recorded, a snapshot is requested, and a new stream is started.
\<close>

definition close_current :: "('strm, 'a) Stream \<Rightarrow> 'strm DB \<Rightarrow> commit \<Rightarrow> commit \<Rightarrow> error + 'strm DB" where
  "close_current ops db commit term =
     (case db_stream db of
        None \<Rightarrow> Inr db
      | Some n \<Rightarrow>
          (case stream_Close ops (files db n) of
             Inl err \<Rightarrow> Inl (Fatal err)
           | Inr st \<Rightarrow>
               Inr (snapshot (addClosed (db\<lparr>files := (files db)(n := st)\<rparr>) (db_current db))
                      commit term)))"

definition Rotate :: "('strm, 'a) Stream \<Rightarrow> 'strm DB \<Rightarrow> commit \<Rightarrow> commit \<Rightarrow> error + 'strm DB" where
  "Rotate ops db commit term =
     (case retrieveStream ops db commit False of
        (Inl err, db1) \<Rightarrow>
          (if err \<noteq> NoSuchFile then Inl (Fatal err)
           else (case close_current ops db1 commit term of
                   Inl fatal \<Rightarrow> Inl fatal
                 | Inr db2 \<Rightarrow> Inr (setCurrent ops db2 commit)))
      | (Inr st, db1) \<Rightarrow>
          (if st \<noteq> None \<and> stream_Closed ops (the st)
           then Inr ((addClosed db1 commit)\<lparr>db_stream := None, db_mockoffset := 10, db_current := commit\<rparr>)
           else (case close_current ops db1 commit term of
                   Inl fatal \<Rightarrow> Inl fatal
                 | Inr db2 \<Rightarrow> Inr (setCurrent ops db2 commit))))"

text \<open>
  \<open>NewDb\<close> on a directory with the given files: the initial struct, then
  \<open>Rotate(1, 0)\<close>.
\<close>

definition NewDb :: "('strm, 'a) Stream \<Rightarrow> string \<Rightarrow> (ino \<Rightarrow> 'strm) \<Rightarrow> (commit \<rightharpoonup> ino) \<Rightarrow> ino \<Rightarrow> error + 'strm DB" where
  "NewDb ops path fs dir_entries unused =
     Rotate ops
       \<lparr>db_dir = path, db_closed = [], db_current = 0, db_MostRecent = 0,
        db_RotateThreshold = 536870912, db_SnapshotBuffer = 500,
        db_stream = None, db_streams = Map.empty, db_mockoffset = 0,
        files = fs, disk = dir_entries, tmpdisk = Map.empty, fresh = unused, snapshots = []\<rparr>
       1 0"

text \<open>
  \<open>Compress\<close>: commits in \<open>(start, stop]\<close> leave \<open>closed\<close> and the cache, the cache
  forgets \<open>start\<close>, and a compressed file at \<open>compressedpath(start)\<close>, if there is
  one, is renamed to \<open>path(start)\<close>.
\<close>

definition Compress :: "'strm DB \<Rightarrow> commit \<Rightarrow> commit \<Rightarrow> 'strm DB" where
  "Compress db start stop =
     (let keep = (\<lambda>commit. commit \<le> start \<or> stop < commit);
          db1 = foldl forgetStream db (filter (\<lambda>commit. \<not> keep commit) (db_closed db));
          db2 = forgetStream db1 start;
          db3 = (case tmpdisk db2 start of
                   None \<Rightarrow> db2
                 | Some n \<Rightarrow> db2\<lparr>disk := (disk db2)(start \<mapsto> n), tmpdisk := (tmpdisk db2)(start := None)\<rparr>)
      in db3\<lparr>db_closed := filter keep (db_closed db)\<rparr>)"

text \<open>
  \<open>Save\<close> and \<open>Recovery\<close>. The blob is written and read with package \<open>binary\<close>,
  which is not under src/; both are modelled on the decoded values: \<open>current\<close>,
  \<open>MostRecent\<close> and the list of closed commits.
\<close>

definition Save :: "'strm DB \<Rightarrow> commit \<times> int64 \<times> commit list" where
  "Save db = (db_current db, db_MostRecent db, db_closed db)"

definition Recovery :: "('strm, 'a) Stream \<Rightarrow> 'strm DB \<Rightarrow> commit \<times> int64 \<times> commit list \<Rightarrow> 'strm DB" where
  "Recovery ops db blob =
     foldl addClosed ((setCurrent ops db (fst blob))\<lparr>db_MostRecent := fst (snd blob)\<rparr>) (snd (snd blob))"

text \<open>The state-changing operations, and a run of them that stops at a fatal exit.\<close>

datatype db_op =
    OpWrite commit "byte list" "(string \<times> string) list" int64
  | OpRotate commit commit
  | OpRecovery "commit \<times> int64 \<times> commit list"
  | OpCompress commit commit

fun apply_op :: "('strm, 'a) Stream \<Rightarrow> 'strm DB \<Rightarrow> db_op \<Rightarrow> error + 'strm DB" where
  "apply_op ops db (OpWrite commit body indexes timestamp) = DB_Write ops db commit body indexes timestamp"
| "apply_op ops db (OpRotate commit term) = Rotate ops db commit term"
| "apply_op ops db (OpRecovery blob) = Inr (Recovery ops db blob)"
| "apply_op ops db (OpCompress start stop) = Inr (Compress db start stop)"

fun run :: "('strm, 'a) Stream \<Rightarrow> error + 'strm DB \<Rightarrow> db_op list \<Rightarrow> error + 'strm DB" where
  "run ops r [] = r"
| "run ops (Inl err) (x # xs) = Inl err"
| "run ops (Inr db) (x # xs) = run ops (apply_op ops db x) xs"

text \<open>
  \<open>prev\<close> and \<open>next\<close>: the loops over \<open>db.closed\<close>, with \<open>result\<close> as the
  accumulator. \<open>math.MaxUint64\<close> is the word \<open>- 1\<close>.
\<close>

definition prev :: "'strm DB \<Rightarrow> commit \<Rightarrow> commit" where
  "prev db commit =
     foldl (\<lambda>result c. if c < commit \<and> result < c then c else result) 0 (db_closed db)"

definition "next" :: "'strm DB \<Rightarrow> commit \<Rightarrow> commit" where
  "next db commit =
     (let result = foldl (\<lambda>result c. if commit < c \<and> c < result then c else result) (- 1) (db_closed db);
          result = (if commit < db_current db \<and> db_current db < result then db_current db else result)
      in if result = - 1 then 0 else result)"

text \<open>
  Cursors are strings. \<open>fmt.Sprint(commit, ":", offset)\<close> prints the unsigned commit
  and the signed offset in decimal with nothing between the operands, since one of each
  adjacent pair is a string.
\<close>

fun decimal :: "nat \<Rightarrow> string" where
  "decimal n = (if n < 10 then [''0123456789'' ! n] else decimal (n div 10) @ [''0123456789'' ! (n mod 10)])"

declare decimal.simps [simp del]

definition Sprint_int64 :: "int64 \<Rightarrow> string" where
  "Sprint_int64 x = (if x <s 0 then CHR ''-'' # decimal (nat (- sint x)) else decimal (nat (sint x)))"

definition buildContinuation :: "commit \<Rightarrow> int64 \<Rightarrow> string" where
  "buildContinuation commit offset =
     (if 0 < commit then decimal (unat commit) @ '':'' @ Sprint_int64 offset else '''')"

text \<open>
  \<open>strconv.ParseUint(s, 10, 64)\<close> and \<open>strconv.ParseInt(s, 10, 64)\<close>, of which
  \<open>parseContinuation\<close> keeps the value and drops the error: 0 on a syntax error, the
  nearest bound on a range error. The digits are read from the left, and the range is
  checked before each digit is added.
\<close>

definition digit_value :: "char \<Rightarrow> nat option" where
  "digit_value c = (if c \<in> set ''0123456789'' then Some (of_char c - 48) else None)"

fun ParseUint_loop :: "nat \<Rightarrow> string \<Rightarrow> nat" where
  "ParseUint_loop n [] = n"
| "ParseUint_loop n (c # cs) =
     (case digit_value c of
        None \<Rightarrow> 0
      | Some d \<Rightarrow>
          (if n \<ge> (2 ^ 64 - 1) div 10 + 1 then 2 ^ 64 - 1
           else if n * 10 + d > 2 ^ 64 - 1 then 2 ^ 64 - 1
           else ParseUint_loop (n * 10 + d) cs))"

definition ParseUint :: "string \<Rightarrow> nat" where
  "ParseUint str = (if str = [] then 0 else ParseUint_loop 0 str)"

definition ParseInt :: "string \<Rightarrow> int64" where
  "ParseInt str =
     (if str = [] then 0
      else
        (let neg = (hd str = CHR ''-'');
             digits = (if hd str = CHR ''+'' \<or> hd str = CHR ''-'' then tl str else str);
             un = ParseUint digits
         in if \<not> neg \<and> un \<ge> 2 ^ 63 then of_nat (2 ^ 63 - 1)
            else if neg \<and> un > 2 ^ 63 then - of_nat (2 ^ 63)
            else if neg then - of_nat un else of_nat un))"

text \<open>\<open>strings.SplitN(s, ":", 2)\<close>: one part without a colon, else two, cut at the first.\<close>

definition SplitN2 :: "string \<Rightarrow> string list" where
  "SplitN2 str =
     (if CHR '':'' \<in> set str
      then [takeWhile (\<lambda>c. c \<noteq> CHR '':'') str, tl (dropWhile (\<lambda>c. c \<noteq> CHR '':'') str)]
      else [str])"

definition parseContinuation :: "'strm DB \<Rightarrow> string \<Rightarrow> bool \<Rightarrow> commit \<times> int64" where
  "parseContinuation db continuation reverse =
     (let commit = (if \<not> reverse \<and> db_closed db \<noteq> [] then hd (db_closed db) else db_current db)
      in if continuation \<noteq> [] \<and> length (SplitN2 continuation) = 2
         then (of_nat (ParseUint (SplitN2 continuation ! 0)), ParseInt (SplitN2 continuation ! 1))
         else (commit, 0))"

text \<open>
  \<open>Scan\<close>. The closure handed to \<open>ScanIndex\<close> captures \<open>offset\<close> and \<open>stopped\<close>:
  it stores the event's next offset, calls the caller's scanner, and stops the stream
  scan when that returns false. The loop runs while \<open>!stopped && commit > 0\<close>; its
  result is the error that \<open>Scan\<close> returns with an empty cursor (or the panic of a
  method call on a nil stream), or the locals \<open>commit\<close>, \<open>offset\<close>, \<open>stopped\<close>, the
  scanner's state and the \<open>DB\<close> when the loop ends.
\<close>

definition Scan_closure ::
  "('strm, 'a) Stream \<Rightarrow> string \<Rightarrow> string \<Rightarrow> ('a \<Rightarrow> Event \<Rightarrow> bool \<times> 'a) \<Rightarrow>
   int64 \<times> bool \<times> 'a \<Rightarrow> Event \<Rightarrow> bool \<times> int64 \<times> bool \<times> 'a" where
  "Scan_closure ops name val scanner captured e =
     (let answer = scanner (snd (snd captured)) e
      in (fst answer, event_Next ops e name val, \<not> fst answer, snd answer))"

function Scan_loop ::
  "('strm, 'a) Stream \<Rightarrow> string \<Rightarrow> string \<Rightarrow> ('a \<Rightarrow> Event \<Rightarrow> bool \<times> 'a) \<Rightarrow>
   'strm DB \<Rightarrow> commit \<Rightarrow> int64 \<Rightarrow> bool \<Rightarrow> 'a \<Rightarrow> error + (commit \<times> int64 \<times> bool \<times> 'a \<times> 'strm DB)" where
  "Scan_loop ops name val scanner db commit offset stopped a =
     (if \<not> stopped \<and> 0 < commit then
        (case fst (retrieveStream ops db commit True) of
           Inl err \<Rightarrow> Inl err
         | Inr None \<Rightarrow> Inl PanicNilStream
         | Inr (Some st) \<Rightarrow>
             (case stream_ScanIndex ops st name val offset (Scan_closure ops name val scanner)
                     (offset, stopped, a) of
                (Some err, captured) \<Rightarrow> Inl err
              | (None, captured) \<Rightarrow>
                  (if \<not> fst (snd captured)
                   then Scan_loop ops name val scanner (snd (retrieveStream ops db commit True))
                          (prev (snd (retrieveStream ops db commit True)) commit) 0
                          (fst (snd captured)) (snd (snd captured))
                   else Inr (commit, fst captured, fst (snd captured), snd (snd captured),
                             snd (retrieveStream ops db commit True)))))
      else Inr (commit, offset, stopped, a, db))"
  by pat_completeness auto
termination
proof -
  have below: "foldl (\<lambda>result c. if c < commit \<and> result < c then c else result) r cs < commit"
    if "r < commit" for r commit :: commit and cs
    using that by (induction cs arbitrary: r) auto
  show ?thesis
    by (relation "measure (\<lambda>(ops, name, val, scanner, db, commit, offset, stopped, a). unat commit)")
       (auto simp: prev_def word_less_nat_alt [symmetric] intro!: below)
qed

declare Scan_loop.simps [simp del]

text \<open>
  After the loop, \<open>Scan\<close> steps one commit back when the scanner stopped at a chain
  end, and returns \<open>buildContinuation(commit, 0)\<close>: the cursor, the scanner's state and
  the \<open>DB\<close>.
\<close>

definition Scan ::
  "('strm, 'a) Stream \<Rightarrow> 'strm DB \<Rightarrow> string \<Rightarrow> string \<Rightarrow> string \<Rightarrow>
   ('a \<Rightarrow> Event \<Rightarrow> bool \<times> 'a) \<Rightarrow> 'a \<Rightarrow> error + (string \<times> 'a \<times> 'strm DB)" where
  "Scan ops db name val continuation scanner a =
     (case Scan_loop ops name val scanner db (fst (parseContinuation db continuation True))
             (snd (parseContinuation db continuation True)) False a of
        Inl err \<Rightarrow> Inl err
      | Inr (commit, offset, stopped, a', db') \<Rightarrow>
          Inr (buildContinuation (if stopped \<and> offset = 0 then prev db' commit else commit) 0, a', db'))"

text \<open>
  \<open>Iterate\<close>, in the same way; its closure captures \<open>stopped\<close> only. The loop
  moves to a larger commit or to 0, so it ends: \<open>commits_left\<close> is its measure.
\<close>

definition commits_left :: "commit \<Rightarrow> nat" where
  "commits_left c = (if c = 0 then 0 else 2 ^ 64 - unat c)"

definition Iterate_closure ::
  "('a \<Rightarrow> Event \<Rightarrow> bool \<times> 'a) \<Rightarrow> bool \<times> 'a \<Rightarrow> Event \<Rightarrow> bool \<times> bool \<times> 'a" where
  "Iterate_closure scanner captured e =
     (let answer = scanner (snd captured) e in (fst answer, \<not> fst answer, snd answer))"

function Iterate_loop ::
  "('strm, 'a) Stream \<Rightarrow> ('a \<Rightarrow> Event \<Rightarrow> bool \<times> 'a) \<Rightarrow>
   'strm DB \<Rightarrow> commit \<Rightarrow> int64 \<Rightarrow> bool \<Rightarrow> 'a \<Rightarrow> error + (commit \<times> int64 \<times> bool \<times> 'a \<times> 'strm DB)" where
  "Iterate_loop ops scanner db commit offset stopped a =
     (if \<not> stopped \<and> 0 < commit then
        (case fst (retrieveStream ops db commit True) of
           Inl err \<Rightarrow> Inl err
         | Inr None \<Rightarrow> Inl PanicNilStream
         | Inr (Some st) \<Rightarrow>
             (case stream_Iterate ops st offset (Iterate_closure scanner) (stopped, a) of
                ((offset', Some err), captured) \<Rightarrow> Inl err
              | ((offset', None), captured) \<Rightarrow>
                  (if \<not> fst captured
                   then Iterate_loop ops scanner (snd (retrieveStream ops db commit True))
                          (next (snd (retrieveStream ops db commit True)) commit) 0
                          (fst captured) (snd captured)
                   else Inr (commit, offset', fst captured, snd captured,
                             snd (retrieveStream ops db commit True)))))
      else Inr (commit, offset, stopped, a, db))"
  by pat_completeness auto
termination
proof -
  have above: "foldl (\<lambda>result c. if commit < c \<and> c < result then c else result) r cs = - 1 \<or>
               commit < foldl (\<lambda>result c. if commit < c \<and> c < result then c else result) r cs"
    if "r = - 1 \<or> commit < r" for r commit :: commit and cs
    using that by (induction cs arbitrary: r) auto
  have nxt: "next db commit = 0 \<or> commit < next db commit" for db :: "'strm DB" and commit
    using above [of "- 1" commit "db_closed db"] by (auto simp: next_def Let_def)
  have less: "commits_left c' < commits_left c"
    if "0 < c" "c' = 0 \<or> c < c'" for c c' :: commit
  proof -
    have "unat c < 2 ^ 64" "unat c' < 2 ^ 64"
      using unsigned_less [of c, where 'a = nat] unsigned_less [of c', where 'a = nat] by simp_all
    with that show ?thesis
      by (auto simp: word_less_nat_alt commits_left_def)
  qed
  show ?thesis
    by (relation "measure (\<lambda>(ops, scanner, db, commit, offset, stopped, a). commits_left commit)")
       (auto intro!: less nxt)
qed

declare Iterate_loop.simps [simp del]

definition Iterate ::
  "('strm, 'a) Stream \<Rightarrow> 'strm DB \<Rightarrow> string \<Rightarrow> ('a \<Rightarrow> Event \<Rightarrow> bool \<times> 'a) \<Rightarrow> 'a \<Rightarrow>
   error + (string \<times> 'a \<times> 'strm DB)" where
  "Iterate ops db continuation scanner a =
     (case Iterate_loop ops scanner db (fst (parseContinuation db continuation False))
             (snd (parseContinuation db continuation False)) False a of
        Inl err \<Rightarrow> Inl err
      | Inr (commit, offset, stopped, a', db') \<Rightarrow> Inr (buildContinuation commit offset, a', db'))"

section \<open>A stream implementation for the DB\<close>

text \<open>
  Modelled from the spec: the \<open>Stream\<close> operations that \<open>DB\<close> calls and that are not
  under src/, over the \<open>openStream\<close> above. An index of the \<open>DB\<close> is a name and a
  value, which the caller joins to the label \<open>name:value\<close>. Reverse indexed scan (spec
  4.4): with \<open>from_offset = 0\<close> start at the tail of the label; while the offset is
  positive read the event there and pass it to the scanner, the event's own back-pointer
  being the next offset; stop when the scanner returns "stop" or the offset reaches 0.
  Forward iteration: start at the caller's offset, or behind the magic header for offset
  0; pull events one after the other and pass them to the scanner; when it returns
  "stop", return the offset immediately past the event just visited; at the end of the
  events return offset 0. A file of \<open>s.length\<close> events is read in at most that many
  steps, which bounds both loops; a chain that is longer is reported as a corrupted
  event. Opening a file gives the stream as it was written; no peer is available for
  recovery.
\<close>

definition label :: "string \<Rightarrow> string \<Rightarrow> string" where
  "label name val = name @ '':'' @ val"

fun spec_scan_loop ::
  "nat \<Rightarrow> (int64 \<rightharpoonup> Event) \<Rightarrow> string \<Rightarrow> ('b \<Rightarrow> Event \<Rightarrow> bool \<times> 'b) \<Rightarrow> int64 \<Rightarrow> 'b \<Rightarrow> error option \<times> 'b" where
  "spec_scan_loop 0 f lbl scanner off b =
     (if 0 <s off then (Some CORRUPTED_EVENT, b) else (None, b))"
| "spec_scan_loop (Suc n) f lbl scanner off b =
     (if 0 <s off then
        (case pullEvent f off of
           Inl err \<Rightarrow> (Some err, b)
         | Inr event \<Rightarrow>
             (if fst (scanner b event)
              then spec_scan_loop n f lbl scanner (back_offset event lbl) (snd (scanner b event))
              else (None, snd (scanner b event))))
      else (None, b))"

definition spec_ScanIndex ::
  "openStream \<Rightarrow> string \<Rightarrow> string \<Rightarrow> int64 \<Rightarrow> ('b \<Rightarrow> Event \<Rightarrow> bool \<times> 'b) \<Rightarrow> 'b \<Rightarrow> error option \<times> 'b" where
  "spec_ScanIndex st name val from_offset scanner b =
     spec_scan_loop (s_length st) (s_stream st) (label name val) scanner
       (if from_offset = 0
        then (case s_tails st (label name val) of Some off \<Rightarrow> off | None \<Rightarrow> 0)
        else from_offset) b"

fun spec_iterate_loop ::
  "nat \<Rightarrow> (Event \<Rightarrow> nat) \<Rightarrow> (int64 \<rightharpoonup> Event) \<Rightarrow> ('b \<Rightarrow> Event \<Rightarrow> bool \<times> 'b) \<Rightarrow> int64 \<Rightarrow> 'b \<Rightarrow>
   (int64 \<times> error option) \<times> 'b" where
  "spec_iterate_loop 0 esize f scanner off b = ((0, None), b)"
| "spec_iterate_loop (Suc n) esize f scanner off b =
     (case pullEvent f off of
        Inl err \<Rightarrow> ((0, None), b)
      | Inr event \<Rightarrow>
          (if fst (scanner b event)
           then spec_iterate_loop n esize f scanner (off + of_nat (esize event)) (snd (scanner b event))
           else ((off + of_nat (esize event), None), snd (scanner b event))))"

definition spec_Iterate ::
  "nat \<Rightarrow> (Event \<Rightarrow> nat) \<Rightarrow> openStream \<Rightarrow> int64 \<Rightarrow> ('b \<Rightarrow> Event \<Rightarrow> bool \<times> 'b) \<Rightarrow> 'b \<Rightarrow>
   (int64 \<times> error option) \<times> 'b" where
  "spec_Iterate magic_header_len esize st from_offset scanner b =
     spec_iterate_loop (s_length st) esize (s_stream st) scanner
       (if from_offset = 0 then of_nat magic_header_len else from_offset) b"

definition spec_stream :: "nat \<Rightarrow> (Event \<Rightarrow> nat) \<Rightarrow> (openStream, 'a) Stream" where
  "spec_stream magic_header_len esize =
     \<lparr>stream_New = createOpenStream magic_header_len,
      stream_Open = Inr,
      stream_Closed = Closed,
      stream_Close = Close,
      stream_Write = (\<lambda>st body indexes. Write esize st body (map (\<lambda>nv. label (fst nv) (snd nv)) indexes)),
      stream_ScanIndex = spec_ScanIndex,
      stream_Iterate = spec_Iterate magic_header_len esize,
      event_Next = (\<lambda>event name val. back_offset event (label name val)),
      stream_Serialize = (\<lambda>body indexes. esize (newEvent body (map_of (map (\<lambda>nv. (label (fst nv) (snd nv), 0)) indexes)))),
      RecoverStream = (\<lambda>commit. Inl PeerUnavailable)\<rparr>"

text \<open>
  The streams of the examples: a magic header of 10 bytes and events of 2 bytes. A
  directory without files, and the scanner that collects payloads and answers
  \<open>continue\<close> while it holds fewer than \<open>limit\<close> of them, as the handler of
  src/cmd/esdb-reader.go does.
\<close>

definition ops10 :: "(openStream, byte list list) Stream" where
  "ops10 = spec_stream 10 (\<lambda>event. 2)"

definition empty_dir :: "error + openStream DB" where
  "empty_dir = NewDb ops10 ''/data'' (\<lambda>n. createOpenStream 10) Map.empty 0"

definition collect :: "nat \<Rightarrow> byte list list \<Rightarrow> Event \<Rightarrow> bool \<times> byte list list" where
  "collect limit seen event = (length seen + 1 < limit, seen @ [data event])"

text \<open>
  The states of the examples. \<open>db_new\<close> is \<open>NewDb\<close> on the empty directory: the
  live stream \<open>events.1\<close> in inode 0. \<open>db_5\<close> is \<open>db_new\<close> after \<open>Rotate(5, 0)\<close>:
  stream 1 closed, the live stream \<open>events.5\<close> in inode 1. \<open>db_5_5\<close> is \<open>db_5\<close>
  after a second \<open>Rotate(5, 0)\<close>, and \<open>db_1\<close> is \<open>db_5\<close> after \<open>Rotate(1, 0)\<close>.
\<close>

definition db_new :: "openStream DB" where
  "db_new = \<lparr>db_dir = ''/data'', db_closed = [], db_current = 1, db_MostRecent = 0,
        db_RotateThreshold = 536870912, db_SnapshotBuffer = 500,
        db_stream = Some 0, db_streams = Map.empty, db_mockoffset = 10,
        files = (\<lambda>n. createOpenStream 10)(0 := createOpenStream 10), disk = [1 \<mapsto> 0], tmpdisk = Map.empty,
        fresh = Suc 0, snapshots = []\<rparr>"

definition db_5 :: "openStream DB" where
  "db_5 = db_new\<lparr>db_closed := [1], db_current := 5, db_stream := Some 1,
        files := (files db_new)(0 := (createOpenStream 10)\<lparr>s_closed := True\<rparr>, 1 := createOpenStream 10),
        disk := [1 \<mapsto> 0, 5 \<mapsto> 1], fresh := Suc (Suc 0), snapshots := [(0, 0)]\<rparr>"

definition db_5_5 :: "openStream DB" where
  "db_5_5 = db_5\<lparr>db_closed := [1, 5], db_stream := Some (Suc (Suc 0)),
        files := (files db_5)(1 := (createOpenStream 10)\<lparr>s_closed := True\<rparr>, Suc (Suc 0) := createOpenStream 10),
        disk := [1 \<mapsto> 0, 5 \<mapsto> Suc (Suc 0)], fresh := Suc (Suc (Suc 0)), snapshots := [(0, 0), (0, 0)]\<rparr>"

definition db_1 :: "openStream DB" where
  "db_1 = db_5\<lparr>db_current := 1, db_stream := None,
        db_streams := [1 \<mapsto> (createOpenStream 10)\<lparr>s_closed := True\<rparr>]\<rparr>"

text \<open>
  Scenario S1 of the spec: \<open>db_new\<close> after the writes of \<open>a\<close> with index \<open>u:1\<close>,
  \<open>b\<close> with \<open>u:1\<close> and \<open>t:x\<close>, and \<open>c\<close> with \<open>t:x\<close>.
\<close>

definition s1_stream :: openStream where
  "s1_stream =
     \<lparr>s_stream = [10 \<mapsto> \<lparr>data = [97], offsets = [''u:1'' \<mapsto> 0]\<rparr>,
                  12 \<mapsto> \<lparr>data = [98], offsets = [''u:1'' \<mapsto> 10, ''t:x'' \<mapsto> 0]\<rparr>,
                  14 \<mapsto> \<lparr>data = [99], offsets = [''t:x'' \<mapsto> 12]\<rparr>],
      s_tails = [''u:1'' \<mapsto> 12, ''t:x'' \<mapsto> 14], s_closed = False, s_offset = 16,
      s_length = Suc (Suc (Suc 0))\<rparr>"

definition db_s1 :: "openStream DB" where
  "db_s1 = db_new\<lparr>db_MostRecent := 200, files := (files db_new)(0 := s1_stream)\<rparr>"

section \<open>Properties of blocks.Reader\<close>

lemma length_le_encode: "length (le_encode w n) = w"
  by (induction w arbitrary: n) auto

lemma le_decode_encode: "n < 256 ^ w \<Longrightarrow> le_decode (le_encode w n) = n"
proof (induction w arbitrary: n)
  case 0
  then show ?case by simp
next
  case (Suc w)
  have "n div 256 < 256 ^ w" using Suc.prems by (simp add: less_mult_imp_div_less mult.commute)
  then have "le_decode (le_encode w (n div 256)) = n div 256" by (rule Suc.IH)
  moreover have "unat (of_nat (n mod 256) :: byte) = n mod 256"
    by (simp add: unat_of_nat)
  ultimately show ?case by simp
qed

lemma header_fits: "bsz < 2 ^ 63 \<Longrightarrow> n \<le> bsz \<Longrightarrow> n < 256 ^ headerLen bsz"
  by (auto simp: headerLen_def)

lemma parseHeader_encode:
  assumes "bsz < 2 ^ 63" "n \<le> bsz" "blockSize r = bsz"
  shows "parseHeader r (le_encode (headerLen bsz) n) = int n"
proof -
  have "le_decode (le_encode (headerLen bsz) n) = n"
    using assms by (intro le_decode_encode header_fits)
  moreover have "n < 2 ^ 63" using assms by simp
  ultimately show ?thesis using assms by (simp add: parseHeader_def Let_def)
qed

lemma fetch_zero:
  "blockSize r = 0 \<Longrightarrow> \<exists>e r'. fetch r len = Inr (e, r') \<and> buffer r' = buffer r \<and> blockSize r' = 0"
proof (induction r len rule: fetch.induct)
  case (1 r len)
  show ?case
  proof (cases "int (length (buffer r)) < len")
    case False
    then show ?thesis using 1 by (subst fetch.simps) simp
  next
    case True
    obtain block err rd where rd: "bytes_Reader_Read (reader r) (headerLen (blockSize r) + blockSize r) = (block, err, rd)"
      by (cases "bytes_Reader_Read (reader r) (headerLen (blockSize r) + blockSize r)") auto
    have short: "\<not> length block > headerLen (blockSize r)"
      using rd "1.prems" by (auto simp: bytes_Reader_Read_def Let_def split: if_splits)
    define r1 where "r1 = r\<lparr>reader := rd, scratch := scratch r @ block\<rparr>"
    show ?thesis
    proof (cases "err = None")
      case False
      then show ?thesis using True rd short "1.prems"
        by (subst fetch.simps) (simp add: Let_def)
    next
      case None: True
      have "\<exists>e r'. fetch r1 len = Inr (e, r') \<and> buffer r' = buffer r1 \<and> blockSize r' = 0"
        apply (rule "1.IH" [OF True rd [symmetric] refl r1_def])
        using short None "1.prems" by (auto simp: r1_def)
      then show ?thesis using True rd short None
        by (subst fetch.simps) (simp add: Let_def r1_def)
    qed
  qed
qed


lemma physical_block_length:
  "well_formed_block bsz q \<Longrightarrow> length (physical_block bsz q) = headerLen bsz + bsz"
  by (simp add: physical_block_def well_formed_block_def length_le_encode)

lemma parse_block:
  assumes bsz: "bsz < 2 ^ 63" and wf: "well_formed_block bsz q" and r: "blockSize r = bsz"
    and sc: "scratch r = physical_block bsz q"
  shows "parse r = Inr (r\<lparr>scratch := snd q, buffer := buffer r @ fst q,
                           allocated := (allocated r \<or> fst q \<noteq> [])\<rparr>)"
proof -
  have len: "length (fst q) \<le> bsz" using wf by (simp add: well_formed_block_def)
  have hd: "take (headerLen bsz) (scratch r) = le_encode (headerLen bsz) (length (fst q))"
    by (simp add: sc physical_block_def length_le_encode)
  have dr: "drop (headerLen bsz) (scratch r) = fst q @ snd q"
    by (simp add: sc physical_block_def length_le_encode)
  have ph: "parseHeader r (le_encode (headerLen bsz) (length (fst q))) = int (length (fst q))"
    using bsz len r by (rule parseHeader_encode)
  have full: "headerLen bsz - length (take (headerLen bsz) (scratch r)) = 0"
    by (simp add: hd length_le_encode)
  show ?thesis
    unfolding parse_def Let_def r full by (simp add: hd dr ph)
qed

lemma fetch_blocks:
  assumes bsz: "0 < bsz" "bsz < 2 ^ 63"
  shows "list_all (well_formed_block bsz) qs \<Longrightarrow> full_but_last bsz qs \<Longrightarrow> blockSize r = bsz \<Longrightarrow>
     remaining r = physical_blocks bsz qs \<Longrightarrow> qs = [] \<or> scratch r = [] \<Longrightarrow>
     \<exists>e r'. fetch r len = Inr (e, r') \<and> reader_inv bsz r' (buffer r @ payloads qs) \<and>
        (len \<le> int (length (buffer r')) \<or> buffer r' = buffer r @ payloads qs)"
proof (induction qs arbitrary: r)
  case Nil
  show ?case
  proof (cases "int (length (buffer r)) < len")
    case False
    have "reader_inv bsz r (buffer r @ payloads [])"
      unfolding reader_inv_def using Nil bsz
      by (auto intro!: exI [of _ "[]"] simp: payloads_def full_but_last_def)
    then show ?thesis using False by (subst fetch.simps) simp
  next
    case True
    have at_end: "length (br_s (reader r)) \<le> br_i (reader r)"
      using Nil.prems by (simp add: remaining_def physical_blocks_def)
    have inv: "reader_inv bsz r (buffer r @ payloads [])"
      unfolding reader_inv_def using Nil bsz
      by (auto intro!: exI [of _ "[]"] simp: payloads_def full_but_last_def)
    have "fetch r len = Inr (Some EOF, r)"
      using True at_end by (subst fetch.simps) (simp add: bytes_Reader_Read_def)
    then show ?thesis using inv by (simp add: payloads_def)
  qed
next
  case (Cons q qs)
  show ?case
  proof (cases "int (length (buffer r)) < len")
    case False
    have "reader_inv bsz r (buffer r @ payloads (q # qs))"
      unfolding reader_inv_def using Cons.prems bsz
      by (auto intro!: exI [of _ "q # qs"])
    then show ?thesis using False by (subst fetch.simps) simp
  next
    case True
    have wfq: "well_formed_block bsz q" and wfqs: "list_all (well_formed_block bsz) qs"
      using Cons.prems by simp_all
    have sc: "scratch r = []" using Cons.prems by simp
    have rem: "drop (br_i (reader r)) (br_s (reader r)) = physical_block bsz q @ physical_blocks bsz qs"
      using Cons.prems by (simp add: remaining_def physical_blocks_def)
    have blen: "length (physical_block bsz q) = headerLen bsz + bsz"
      using wfq by (rule physical_block_length)
    have more: "br_i (reader r) < length (br_s (reader r))"
    proof (rule ccontr)
      assume "\<not> br_i (reader r) < length (br_s (reader r))"
      then have "drop (br_i (reader r)) (br_s (reader r)) = []" by simp
      with rem blen bsz show False by auto
    qed
    define rd where "rd = (reader r)\<lparr>br_i := br_i (reader r) + (headerLen bsz + bsz)\<rparr>"
    have rd: "bytes_Reader_Read (reader r) (headerLen (blockSize r) + blockSize r)
                = (physical_block bsz q, None, rd)"
      using more Cons.prems(3) rem blen
      by (simp add: bytes_Reader_Read_def Let_def rd_def)
    define r1 where "r1 = r\<lparr>reader := rd, scratch := scratch r @ physical_block bsz q\<rparr>"
    have p: "parse r1 = Inr (r1\<lparr>scratch := snd q, buffer := buffer r1 @ fst q,
                           allocated := (allocated r1 \<or> fst q \<noteq> [])\<rparr>)"
      using bsz(2) wfq by (rule parse_block) (simp_all add: r1_def Cons.prems sc)
    define r2 where "r2 = r1\<lparr>scratch := snd q, buffer := buffer r1 @ fst q,
                           allocated := (allocated r1 \<or> fst q \<noteq> [])\<rparr>"
    have step: "fetch r len = fetch r2 len"
      using True rd p blen bsz Cons.prems(3)
      by (subst fetch.simps) (simp add: Let_def r1_def [symmetric] r2_def [symmetric])
    have full: "full_but_last bsz qs"
      using Cons.prems(2) by (cases qs) (simp_all add: full_but_last_def)
    have pad: "qs = [] \<or> scratch r2 = []"
    proof (cases qs)
      case Nil
      then show ?thesis by simp
    next
      case (Cons a list)
      then have "length (fst q) = bsz" using Cons.prems(2) \<open>full_but_last bsz (q # qs)\<close>
        by (simp add: full_but_last_def)
      then have "snd q = []" using wfq by (simp add: well_formed_block_def)
      then show ?thesis by (simp add: r2_def)
    qed
    have "drop (br_i (reader r) + (headerLen bsz + bsz)) (br_s (reader r))
            = drop (length (physical_block bsz q)) (drop (br_i (reader r)) (br_s (reader r)))"
      unfolding blen by (simp add: add.commute)
    also have "\<dots> = physical_blocks bsz qs"
      unfolding rem by simp
    finally have rem2: "remaining r2 = physical_blocks bsz qs"
      by (simp add: r2_def r1_def rd_def remaining_def)
    have "\<exists>e r'. fetch r2 len = Inr (e, r') \<and> reader_inv bsz r' (buffer r2 @ payloads qs) \<and>
        (len \<le> int (length (buffer r')) \<or> buffer r' = buffer r2 @ payloads qs)"
      using wfqs full _ rem2 pad by (rule Cons.IH) (simp add: r2_def r1_def Cons.prems)
    moreover have "buffer r2 @ payloads qs = buffer r @ payloads (q # qs)"
      by (simp add: r2_def r1_def payloads_def)
    ultimately show ?thesis using step by simp
  qed
qed


lemma fetch_inv:
  assumes bsz: "bsz < 2 ^ 63" and inv: "reader_inv bsz r L"
  shows "\<exists>e r'. fetch r len = Inr (e, r') \<and> reader_inv bsz r' L \<and>
        (len \<le> int (length (buffer r')) \<or> buffer r' = L)"
proof (cases "bsz = 0")
  case True
  with inv have r: "blockSize r = 0" "buffer r = []" "L = []"
    by (simp_all add: reader_inv_def)
  from fetch_zero [OF r(1), of len] obtain e r' where
    "fetch r len = Inr (e, r')" "buffer r' = buffer r" "blockSize r' = 0" by blast
  then show ?thesis using True r by (auto simp: reader_inv_def)
next
  case False
  with inv obtain qs where qs: "list_all (well_formed_block bsz) qs" "full_but_last bsz qs"
      "blockSize r = bsz" "remaining r = physical_blocks bsz qs" "qs = [] \<or> scratch r = []"
      "L = buffer r @ payloads qs"
    by (auto simp: reader_inv_def)
  from False have "0 < bsz" by simp
  from fetch_blocks [OF this bsz qs(1-5), of len] show ?thesis
    unfolding qs(6) .
qed

lemma Read_inv:
  assumes bsz: "bsz < 2 ^ 63" and inv: "reader_inv bsz r L"
  shows "\<exists>e r'. Read r k = Inr (take k L, e, r') \<and> reader_inv bsz r' (drop k L)"
proof -
  from fetch_inv [OF bsz inv, of "int k"] obtain e r1 where
    f: "fetch r (int k) = Inr (e, r1)" and inv1: "reader_inv bsz r1 L"
    and enough: "int k \<le> int (length (buffer r1)) \<or> buffer r1 = L"
    by blast
  show ?thesis
  proof (cases "buffer r1 = []")
    case True
    have "take k L = []" "drop k L = L"
      using enough True by auto
    then show ?thesis using f True inv1 by (simp add: Read_def)
  next
    case False
    with inv1 have nz: "bsz \<noteq> 0" by (auto simp: reader_inv_def split: if_splits)
    with inv1 obtain qs where qs: "list_all (well_formed_block bsz) qs" "full_but_last bsz qs"
      "blockSize r1 = bsz" "remaining r1 = physical_blocks bsz qs" "qs = [] \<or> scratch r1 = []"
      "L = buffer r1 @ payloads qs"
      by (auto simp: reader_inv_def)
    have tk: "take k L = take k (buffer r1)"
      using enough qs(6) by auto
    have dr: "drop k L = drop k (buffer r1) @ payloads qs"
      using enough qs(6) by auto
    have "reader_inv bsz (r1\<lparr>buffer := drop k (buffer r1)\<rparr>) (drop k L)"
      unfolding reader_inv_def dr using nz qs(1-5)
      by (auto simp: remaining_def intro!: exI [of _ qs])
    then show ?thesis using f False tk by (simp add: Read_def)
  qed
qed

lemma Reads_inv:
  assumes bsz: "bsz < 2 ^ 63"
  shows "reader_inv bsz r L \<Longrightarrow>
    \<exists>chunks. Reads r ks = Inr chunks \<and> concat chunks = take (sum_list ks) L"
proof (induction ks arbitrary: r L)
  case Nil
  then show ?case by simp
next
  case (Cons k ks)
  from Read_inv [OF bsz Cons.prems, of k] obtain e r' where
    rd: "Read r k = Inr (take k L, e, r')" and inv': "reader_inv bsz r' (drop k L)" by blast
  from Cons.IH [OF inv'] obtain chunks where
    "Reads r' ks = Inr chunks" "concat chunks = take (sum_list ks) (drop k L)" by blast
  then show ?case using rd by (simp add: take_add)
qed

lemma NewByteReader_inv:
  assumes "list_all (well_formed_block bsz) blks" "full_but_last bsz blks"
  shows "reader_inv bsz (NewByteReader (physical_blocks bsz blks) bsz) (payloads blks)"
proof (cases "bsz = 0")
  case True
  have "payloads blks = []"
    using assms(1) unfolding True payloads_def
    by (induction blks) (auto simp: well_formed_block_def)
  then show ?thesis using True
    by (simp add: reader_inv_def NewByteReader_def NewReader_def)
next
  case False
  then show ?thesis using assms
    by (auto simp: reader_inv_def NewByteReader_def NewReader_def remaining_def intro!: exI [of _ blks])
qed

text \<open>
  C6 (amended): for every sequence of well-formed fixed-width physical blocks in which every
  block but the last carries exactly \<open>blockSize\<close> payload bytes (the last may be short
  and padded), successive \<open>Read\<close> calls of any sizes hand out exactly the concatenation
  of the declared payloads, in order.
\<close>

theorem Read_full_blocks:
  assumes "bsz < 2 ^ 63" "list_all (well_formed_block bsz) blks" "full_but_last bsz blks"
  shows "\<exists>chunks. Reads (NewByteReader (physical_blocks bsz blks) bsz) ks = Inr chunks \<and>
           concat chunks = take (sum_list ks) (payloads blks)"
  using Reads_inv [OF assms(1) NewByteReader_inv [OF assms(2,3)]] .

theorem Read_full_blocks_witness:
  "\<exists>chunks. Reads (NewByteReader (physical_blocks 2 [([97, 98], []), ([99], [0])]) 2) [1, 1, 5] = Inr chunks \<and>
           concat chunks = [97, 98, 99]"
proof -
  have "(2::nat) < 2 ^ 63" by simp
  moreover have "list_all (well_formed_block 2) [([97, 98 :: byte], []), ([99], [0 :: byte])]"
    by (simp add: well_formed_block_def)
  moreover have "full_but_last 2 [([97, 98 :: byte], []), ([99], [0 :: byte])]"
    by (simp add: full_but_last_def)
  ultimately show ?thesis
    using Read_full_blocks [of 2 "[([97, 98], []), ([99], [0])]" "[1, 1, 5]"]
    by (simp add: payloads_def)
qed

text \<open>
  C6 as stated fails when a block that is not the last is short. Block size 2, two
  blocks with the payloads \<open>a\<close> and \<open>b\<close>, one byte of padding each: the padding of the
  first block stays in \<open>scratch\<close>, the next \<open>parse\<close> reads its header from there, and
  a \<open>Read\<close> of two bytes hands out \<open>a\<close> and a padding byte instead of \<open>a\<close>, \<open>b\<close>.
\<close>

lemma short_blocks_well_formed:
  "list_all (well_formed_block 2) [([97], [0]), ([98], [0])]"
  by (simp add: well_formed_block_def)

lemma headerLen_2: "headerLen 2 = 2"
  by (simp add: headerLen_def)

lemma le_encode_2: "le_encode 2 n = [of_nat (n mod 256), of_nat (n div 256 mod 256)]"
  by (simp add: numeral_2_eq_2)

lemma short_blocks_bytes:
  "physical_blocks 2 [([97], [0]), ([98], [0])] = [1, 0, 97, 0, 1, 0, 98, 0]"
  by (simp add: physical_blocks_def physical_block_def headerLen_2 le_encode_2)

lemma short_blocks_Reads:
  "Reads (NewByteReader [1, 0, 97, 0, 1, 0, 98, 0] 2) [2] = Inr [[97, 0]]"
  by (simp add: Read_def fetch.simps NewByteReader_def NewReader_def bytes_Reader_Read_def
        parse_def parseHeader_def headerLen_2 Let_def)

lemma short_blocks_payloads:
  "take 2 (payloads [([97], [0]), ([98], [0])]) = [97, 98 :: byte]"
  by (simp add: payloads_def)

theorem Read_short_block_counterexample:
  "list_all (well_formed_block 2) [([97], [0]), ([98], [0])] \<and>
   Reads (NewByteReader (physical_blocks 2 [([97], [0]), ([98], [0])]) 2) [2] = Inr [[97, 0]] \<and>
   take 2 (payloads [([97], [0]), ([98], [0])]) = [97, 98]"
  unfolding short_blocks_bytes
  using short_blocks_well_formed short_blocks_Reads short_blocks_payloads
  by (intro conjI)

text \<open>
  C10: \<open>Peek(1)\<close> on a reader over an empty stream. \<open>fetch\<close> reads nothing and returns
  \<open>EOF\<close>, \<open>buffer\<close> never got a backing array, and \<open>Bytes()[:1]\<close> panics with a
  slice-bounds violation instead of returning a short slice or an error.
\<close>

theorem Peek_panics_at_end_of_stream:
  "Peek (NewByteReader [] bsz) 1 = Inr (SliceBoundsPanic, NewByteReader [] bsz)"
  by (simp add: Peek_def NewByteReader_def NewReader_def fetch.simps bytes_Reader_Read_def)

section \<open>Properties of stream.openStream\<close>

lemma sint_of_nat64: "w < 2 ^ 63 \<Longrightarrow> sint (of_nat w :: int64) = int w"
proof -
  assume w: "w < 2 ^ 63"
  have "sint (word_of_int (int w) :: int64) = signed_take_bit (LENGTH(64) - 1) (int w)"
    by (rule sint_sbintrunc')
  also have "\<dots> = int w"
    using w by (intro signed_take_bit_int_eq_self) simp_all
  finally show ?thesis by simp
qed

lemma offset_advance:
  fixes off :: int64
  assumes "0 \<le>s off" "0 < w" "w < 2 ^ 63" "0 \<le>s off + of_nat w"
  shows "off <s off + of_nat w"
proof -
  have a: "0 \<le> sint off" using assms(1) by (simp add: word_sle_eq)
  have b: "sint (of_nat w :: int64) = int w" using assms(3) by (rule sint_of_nat64)
  define t where "t = signed_take_bit 63 (sint off + int w)"
  have s: "sint (off + of_nat w) = t"
    by (simp add: sint_word_add b t_def)
  have nn: "0 \<le> t" using assms(4) s by (simp add: word_sle_eq)
  have w63: "int w < 2 ^ 63" using assms(3) by simp
  have o63: "sint off < 2 ^ 63" using sint_lt [of off] by simp
  have small: "sint off + int w < 2 ^ 63"
  proof (rule ccontr)
    assume "\<not> sint off + int w < 2 ^ 63"
    then have "2 ^ 63 \<le> sint off + int w" by simp
    then have "t \<le> sint off + int w - 2 ^ Suc 63"
      unfolding t_def by (rule signed_take_bit_int_less_eq)
    then have "t \<le> sint off + int w - 2 ^ 63 - 2 ^ 63" by simp
    with w63 o63 nn show False by linarith
  qed
  have "t = sint off + int w"
    unfolding t_def using a small by (intro signed_take_bit_int_eq_self) simp_all
  with s assms(2) show ?thesis by (simp add: word_sless_alt)
qed


lemma set_each_apply: "set_each g ks m k = (if k \<in> set ks then Some (g k) else m k)"
  by (induction ks arbitrary: m) auto

lemma chain_within_nonpos: "\<not> 0 <s off \<Longrightarrow> chain_within n f index off"
  by (cases n) simp_all

lemma chain_within_Suc: "chain_within n f index off \<Longrightarrow> chain_within (Suc n) f index off"
proof (induction n arbitrary: off)
  case 0
  then show ?case by simp
next
  case (Suc n)
  show ?case
  proof (cases "0 <s off")
    case False
    then show ?thesis by simp
  next
    case pos: True
    show ?thesis
    proof (cases "f off")
      case None
      then show ?thesis by simp
    next
      case (Some event)
      with Suc.prems pos have "chain_within n f index (back_offset event index)" by simp
      then have "chain_within (Suc n) f index (back_offset event index)" by (rule Suc.IH)
      with pos Some show ?thesis by (simp del: chain_within.simps(2) add: chain_within.simps(2) [of "Suc n"])
    qed
  qed
qed

lemma chain_within_update:
  assumes cl: "\<And>off event index v. f off = Some event \<Longrightarrow> offsets event index = Some v \<Longrightarrow> v = 0 \<or> f v \<noteq> None"
    and new: "f p = None"
  shows "f off \<noteq> None \<or> \<not> 0 <s off \<Longrightarrow> chain_within n f index off \<Longrightarrow>
         chain_within n (f(p \<mapsto> e)) index off"
proof (induction n arbitrary: off)
  case 0
  then show ?case by simp
next
  case (Suc n)
  show ?case
  proof (cases "0 <s off")
    case False
    then show ?thesis by simp
  next
    case pos: True
    with Suc.prems(1) obtain event where ev: "f off = Some event" by auto
    with new have ne: "off \<noteq> p" by auto
    from Suc.prems(2) pos ev have ch: "chain_within n f index (back_offset event index)" by simp
    have "f (back_offset event index) \<noteq> None \<or> \<not> 0 <s back_offset event index"
    proof (cases "offsets event index")
      case None
      then show ?thesis by (simp add: back_offset_def)
    next
      case (Some v)
      with cl [OF ev Some] show ?thesis by (auto simp: back_offset_def)
    qed
    then have step: "chain_within n (f(p \<mapsto> e)) index (back_offset event index)"
      using ch by (rule Suc.IH)
    have up: "(f(p \<mapsto> e)) off = Some event"
      using ev ne by simp
    show ?thesis
      unfolding chain_within.simps(2) using pos up step by (simp only: if_True option.simps)
  qed
qed

lemma ScanIndex_loop_returns:
  "chain_within n f index off \<Longrightarrow> \<exists>r. ScanIndex_loop n f index scanner off a = Some r"
proof (induction n arbitrary: off a)
  case 0
  then show ?case by simp
next
  case (Suc n)
  show ?case
  proof (cases "0 <s off")
    case False
    then show ?thesis by simp
  next
    case pos: True
    show ?thesis
    proof (cases "f off")
      case None
      with pos show ?thesis by (simp add: pullEvent_def)
    next
      case (Some event)
      with Suc.prems pos have "chain_within n f index (back_offset event index)" by simp
      from Suc.IH [OF this] pos Some show ?thesis by (simp add: pullEvent_def)
    qed
  qed
qed


lemma Write_Inr:
  assumes "Write esize st body indexes = Inr (written, st')"
  shows "\<not> s_closed st" "0 \<le>s s_offset st"
    "written = esize (newEvent body (set_each (\<lambda>index. case s_tails st index of Some off \<Rightarrow> off | None \<Rightarrow> 0) indexes Map.empty))"
    "st' = st\<lparr>s_stream := (s_stream st)(s_offset st \<mapsto>
                 newEvent body (set_each (\<lambda>index. case s_tails st index of Some off \<Rightarrow> off | None \<Rightarrow> 0) indexes Map.empty)),
              s_tails := set_each (\<lambda>index. s_offset st) indexes (s_tails st),
              s_offset := s_offset st + of_nat written,
              s_length := s_length st + 1\<rparr>"
  using assms by (auto simp: Write_def Closed_def Let_def signed.not_less split: if_splits)

lemma Write_inv:
  assumes es: "\<forall>event. 0 < esize event \<and> esize event < 2 ^ 63"
    and inv: "stream_inv st"
    and W: "Write esize st body indexes = Inr (written, st')"
  shows "stream_inv st'"
proof -
  define f where "f = s_stream st"
  define p where "p = s_offset st"
  define n where "n = s_length st"
  define e where "e = newEvent body (set_each (\<lambda>index. case s_tails st index of Some off \<Rightarrow> off | None \<Rightarrow> 0) indexes Map.empty)"
  note W' = Write_Inr [OF W, folded e_def f_def p_def n_def]
  have p0: "0 \<le>s p" by (rule W')
  have wr: "0 < written" "written < 2 ^ 63" using es W'(3) by auto
  have st': "s_stream st' = f(p \<mapsto> e)" "s_tails st' = set_each (\<lambda>index. p) indexes (s_tails st)"
    "s_offset st' = p + of_nat written" "s_length st' = Suc n"
    by (simp_all add: W'(4) f_def p_def n_def)
  have i1: "\<And>off event. f off = Some event \<Longrightarrow> 0 \<le>s off \<and> off <s p"
    using inv p0 by (auto simp: stream_inv_def f_def p_def)
  have i2: "\<And>off event index v. f off = Some event \<Longrightarrow> offsets event index = Some v \<Longrightarrow>
              v = 0 \<or> (v <s off \<and> f v \<noteq> None)"
    using inv unfolding stream_inv_def f_def by blast
  have i3: "\<And>off event index. f off = Some event \<Longrightarrow> chain_within n f index off"
    using inv unfolding stream_inv_def f_def n_def by blast
  have i4: "\<And>index t. s_tails st index = Some t \<Longrightarrow> f t \<noteq> None"
    using inv unfolding stream_inv_def f_def by blast
  have new: "f p = None"
  proof (cases "f p")
    case (Some event)
    from i1 [OF this] show ?thesis by simp
  qed simp
  have cl: "\<And>off event index v. f off = Some event \<Longrightarrow> offsets event index = Some v \<Longrightarrow> v = 0 \<or> f v \<noteq> None"
    using i2 by blast
  have adv: "0 \<le>s p + of_nat written \<Longrightarrow> p <s p + of_nat written"
    using p0 wr by (rule offset_advance)
  have e_off: "\<And>index v. offsets e index = Some v \<Longrightarrow> v = 0 \<or> (\<exists>event. f v = Some event)"
    using i4 by (auto simp: e_def newEvent_def set_each_apply split: if_splits option.splits)
  have keep: "\<And>off index. f off \<noteq> None \<or> \<not> 0 <s off \<Longrightarrow> chain_within n f index off \<Longrightarrow>
                chain_within n (f(p \<mapsto> e)) index off"
    using cl new by (rule chain_within_update)
  have old: "\<And>off index. f off \<noteq> None \<Longrightarrow> chain_within (Suc n) (f(p \<mapsto> e)) index off"
  proof -
    fix off index assume a: "f off \<noteq> None"
    then have "chain_within n f index off" using i3 by auto
    with a have "chain_within n (f(p \<mapsto> e)) index off" by (intro keep) simp
    then show "chain_within (Suc n) (f(p \<mapsto> e)) index off" by (rule chain_within_Suc)
  qed
  have fresh: "\<And>index. chain_within (Suc n) (f(p \<mapsto> e)) index p"
  proof -
    fix index
    have "chain_within n (f(p \<mapsto> e)) index (back_offset e index)"
    proof (cases "offsets e index")
      case None
      then show ?thesis by (simp add: back_offset_def chain_within_nonpos)
    next
      case (Some v)
      from e_off [OF Some] show ?thesis
      proof
        assume "v = 0"
        with Some show ?thesis by (simp add: back_offset_def chain_within_nonpos)
      next
        assume "\<exists>event. f v = Some event"
        then obtain event where ev: "f v = Some event" by blast
        then have "chain_within n (f(p \<mapsto> e)) index v"
          by (intro keep i3 [OF ev]) simp
        with Some show ?thesis by (simp add: back_offset_def)
      qed
    qed
    then show "chain_within (Suc n) (f(p \<mapsto> e)) index p"
      unfolding chain_within.simps(2) by (simp only: fun_upd_same option.simps if_cancel split: if_splits)
  qed
  show ?thesis
    unfolding stream_inv_def st'
  proof (intro conjI allI impI)
    fix off event assume a: "(f(p \<mapsto> e)) off = Some event"
    show "0 \<le>s off" using a p0 i1 by (auto split: if_splits)
    show "off <s p + of_nat written" if "0 \<le>s p + of_nat written"
      using a i1 adv [OF that] by (auto split: if_splits intro: signed.less_trans)
    show "chain_within (Suc n) (f(p \<mapsto> e)) index off" for index
    proof (cases "off = p")
      case True
      show ?thesis unfolding True by (rule fresh)
    next
      case False
      with a have "f off \<noteq> None" by simp
      then show ?thesis by (rule old)
    qed
    show "v = 0 \<or> v <s off \<and> (f(p \<mapsto> e)) v \<noteq> None" if "offsets event index = Some v" for index v
    proof (cases "off = p")
      case True
      with a have "event = e" by simp
      with that e_off have "v = 0 \<or> (\<exists>event. f v = Some event)" by blast
      then show ?thesis using i1 True by auto
    next
      case False
      with a have "f off = Some event" by simp
      from i2 [OF this that] show ?thesis by auto
    qed
  next
    fix index t assume "set_each (\<lambda>index. p) indexes (s_tails st) index = Some t"
    then show "(f(p \<mapsto> e)) t \<noteq> None"
      using i4 by (auto simp: set_each_apply split: if_splits)
  qed
qed

lemma Writes_inv:
  assumes es: "\<forall>event. 0 < esize event \<and> esize event < 2 ^ 63"
  shows "stream_inv st \<Longrightarrow> stream_inv (Writes esize st ws)"
proof (induction ws arbitrary: st)
  case Nil
  then show ?case by simp
next
  case (Cons w ws)
  show ?case
  proof (cases "Write esize st (fst w) (snd w)")
    case (Inl err)
    with Cons show ?thesis by simp
  next
    case (Inr r)
    obtain written st' where r: "r = (written, st')" by (cases r)
    with Inr have "stream_inv st'" using Write_inv [OF es Cons.prems] by blast
    then have "stream_inv (Writes esize st' ws)" by (rule Cons.IH)
    with Inr r show ?thesis by simp
  qed
qed

lemma createOpenStream_inv: "stream_inv (createOpenStream hlen)"
  by (simp add: stream_inv_def createOpenStream_def)


lemma ScanIndex_loop_chain:
  "chain_from f index off events final \<Longrightarrow>
   length events + (if final = None then 0 else 1) \<le> fuel \<Longrightarrow>
   ScanIndex_loop fuel f index scanner off a =
     Some (final, foldl (\<lambda>a event. snd (scanner a event)) a events)"
proof (induction events arbitrary: fuel off a)
  case Nil
  then show ?case
    by (cases fuel) (auto split: if_splits sum.splits)
next
  case (Cons event events)
  from Cons.prems(2) obtain n where fuel: "fuel = Suc n"
    and n: "length events + (if final = None then 0 else 1) \<le> n"
    by (cases fuel) auto
  from Cons.prems(1) have pos: "0 <s off" and ev: "pullEvent f off = Inr event"
    and rest: "chain_from f index (back_offset event index) events final"
    by simp_all
  from Cons.IH [OF rest n] pos ev show ?case
    by (simp add: fuel)
qed

lemma ScanIndex_loop_returned:
  "ScanIndex_loop fuel f index scanner off a = Some r \<Longrightarrow>
   \<exists>events final. length events + (if final = None then 0 else 1) \<le> fuel \<and> chain_from f index off events final \<and>
      r = (final, foldl (\<lambda>a event. snd (scanner a event)) a events)"
proof (induction fuel arbitrary: off a)
  case 0
  then have "\<not> 0 <s off" "r = (None, a)"
    by (auto split: if_splits)
  then have "length ([] :: Event list) + (if (None :: error option) = None then 0 else 1) \<le> 0 \<and> chain_from f index off [] None \<and>
      r = (None, foldl (\<lambda>a event. snd (scanner a event)) a [])"
    by simp
  then show ?case by blast
next
  case (Suc fuel)
  show ?case
  proof (cases "0 <s off")
    case False
    with Suc.prems have "r = (None, a)" by simp
    with False have "length ([] :: Event list) + (if (None :: error option) = None then 0 else 1) \<le> Suc fuel \<and> chain_from f index off [] None \<and>
      r = (None, foldl (\<lambda>a event. snd (scanner a event)) a [])"
      by simp
    then show ?thesis by blast
  next
    case pos: True
    show ?thesis
    proof (cases "pullEvent f off")
      case (Inl err)
      with pos Suc.prems have "r = (Some err, a)" by simp
      with pos Inl have "length ([] :: Event list) + (if Some err = None then 0 else 1) \<le> Suc fuel \<and> chain_from f index off [] (Some err) \<and>
        r = (Some err, foldl (\<lambda>a event. snd (scanner a event)) a [])"
        by simp
      then show ?thesis by blast
    next
      case (Inr event)
      with pos Suc.prems have
        "ScanIndex_loop fuel f index scanner (back_offset event index) (snd (scanner a event)) = Some r"
        by simp
      from Suc.IH [OF this] obtain events final where
        "length events + (if final = None then 0 else 1) \<le> fuel" "chain_from f index (back_offset event index) events final"
        "r = (final, foldl (\<lambda>a event. snd (scanner a event)) (snd (scanner a event)) events)"
        by blast
      with pos Inr have "length (event # events) + (if final = None then 0 else 1) \<le> Suc fuel \<and>
        chain_from f index off (event # events) final \<and>
        r = (final, foldl (\<lambda>a event. snd (scanner a event)) a (event # events))"
        by simp
      then show ?thesis by blast
    qed
  qed
qed

text \<open>
  C3 (amended): \<open>openStream.ScanIndex\<close> returns exactly when the back-pointer chain of
  the label, followed from its tail, ends: at an offset that is no longer positive, with
  a nil error, or at an offset where no event can be read, with the error of the read.
  When it returns it has handed every event of the chain to the scanner, in chain order:
  the scanner's state is the one that results from calling it on each of them in turn.
  What the scanner returns is dropped, so returning false stops nothing. (The fuel is
  the number of reads the model lets the loop make; the scan returns as soon as the
  fuel covers the reads of the chain, the failing one included.)
\<close>

theorem ScanIndex_delivers_whole_chain:
  "ScanIndex fuel st index scanner a = Some r \<longleftrightarrow>
     (\<exists>events final.
        length events + (if final = None then 0 else 1) \<le> fuel \<and>
        chain_from (s_stream st) index (case s_tails st index of Some off \<Rightarrow> off | None \<Rightarrow> 0)
          events final \<and>
        r = (final, foldl (\<lambda>a event. snd (scanner a event)) a events))"
proof
  assume "ScanIndex fuel st index scanner a = Some r"
  then show "\<exists>events final.
        length events + (if final = None then 0 else 1) \<le> fuel \<and>
        chain_from (s_stream st) index (case s_tails st index of Some off \<Rightarrow> off | None \<Rightarrow> 0)
          events final \<and>
        r = (final, foldl (\<lambda>a event. snd (scanner a event)) a events)"
    unfolding ScanIndex_def by (rule ScanIndex_loop_returned)
next
  assume "\<exists>events final.
        length events + (if final = None then 0 else 1) \<le> fuel \<and>
        chain_from (s_stream st) index (case s_tails st index of Some off \<Rightarrow> off | None \<Rightarrow> 0)
          events final \<and>
        r = (final, foldl (\<lambda>a event. snd (scanner a event)) a events)"
  then obtain events final where
    "length events + (if final = None then 0 else 1) \<le> fuel"
    "chain_from (s_stream st) index (case s_tails st index of Some off \<Rightarrow> off | None \<Rightarrow> 0) events final"
    "r = (final, foldl (\<lambda>a event. snd (scanner a event)) a events)"
    by blast
  then show "ScanIndex fuel st index scanner a = Some r"
    unfolding ScanIndex_def by (simp add: ScanIndex_loop_chain)
qed

lemma two_events_eq:
  "two_events =
     \<lparr>s_stream = [10 \<mapsto> \<lparr>data = [97], offsets = [''u:1'' \<mapsto> 0]\<rparr>,
                  12 \<mapsto> \<lparr>data = [98], offsets = [''u:1'' \<mapsto> 10]\<rparr>],
      s_tails = [''u:1'' \<mapsto> 12], s_closed = False, s_offset = 14, s_length = 2\<rparr>"
  by (simp add: two_events_def Write_def Closed_def createOpenStream_def newEvent_def Let_def
        word_sless_alt)

text \<open>
  C3 as stated fails: on a stream of two events with the label \<open>u:1\<close>, a scanner that
  returns false at once is still handed the second event.
\<close>

theorem ScanIndex_stop_counterexample:
  "ScanIndex 2 two_events ''u:1'' (\<lambda>a event. (False, a @ [data event])) [] = Some (None, [[98], [97]])"
  by (simp add: two_events_eq ScanIndex_def numeral_2_eq_2 pullEvent_def back_offset_def word_sless_alt)

lemma two_events_chain:
  "chain_from (s_stream two_events) ''u:1'' 12
     [\<lparr>data = [98], offsets = [''u:1'' \<mapsto> 10]\<rparr>, \<lparr>data = [97], offsets = [''u:1'' \<mapsto> 0]\<rparr>] None"
proof -
  have f12: "pullEvent (s_stream two_events) 12 = Inr \<lparr>data = [98], offsets = [''u:1'' \<mapsto> 10]\<rparr>"
    by (simp add: two_events_eq pullEvent_def)
  have f10: "pullEvent (s_stream two_events) 10 = Inr \<lparr>data = [97], offsets = [''u:1'' \<mapsto> 0]\<rparr>"
    by (simp add: two_events_eq pullEvent_def)
  have b12: "back_offset \<lparr>data = [98], offsets = [''u:1'' \<mapsto> 10]\<rparr> ''u:1'' = 10"
    by (simp add: back_offset_def)
  have b10: "back_offset \<lparr>data = [97], offsets = [''u:1'' \<mapsto> 0]\<rparr> ''u:1'' = 0"
    by (simp add: back_offset_def)
  have pos: "(0 :: int64) <s 12" "(0 :: int64) <s 10" "\<not> (0 :: int64) <s 0"
    by (simp_all add: word_sless_alt)
  show ?thesis
    unfolding chain_from.simps f12 b12 f10 b10 using pos by simp
qed

theorem ScanIndex_delivers_whole_chain_witness:
  "chain_from (s_stream two_events) ''u:1'' 12
     [\<lparr>data = [98], offsets = [''u:1'' \<mapsto> 10]\<rparr>, \<lparr>data = [97], offsets = [''u:1'' \<mapsto> 0]\<rparr>] None \<and>
   ScanIndex 2 two_events ''u:1'' (\<lambda>a event. (False, a @ [event])) [] =
     Some (None, [\<lparr>data = [98], offsets = [''u:1'' \<mapsto> 10]\<rparr>, \<lparr>data = [97], offsets = [''u:1'' \<mapsto> 0]\<rparr>])"
proof -
  have tail: "(case s_tails two_events ''u:1'' of Some off \<Rightarrow> off | None \<Rightarrow> 0) = 12"
    by (simp add: two_events_eq)
  have "\<exists>events final. length events + (if final = None then 0 else 1) \<le> 2 \<and>
          chain_from (s_stream two_events) ''u:1''
            (case s_tails two_events ''u:1'' of Some off \<Rightarrow> off | None \<Rightarrow> 0) events final \<and>
          (None, [\<lparr>data = [98], offsets = [''u:1'' \<mapsto> 10]\<rparr>, \<lparr>data = [97], offsets = [''u:1'' \<mapsto> 0]\<rparr>])
            = (final, foldl (\<lambda>a event. snd (False, a @ [event])) [] events)"
    unfolding tail
  proof (intro exI conjI)
    show "chain_from (s_stream two_events) ''u:1'' 12
       [\<lparr>data = [98], offsets = [''u:1'' \<mapsto> 10]\<rparr>, \<lparr>data = [97], offsets = [''u:1'' \<mapsto> 0]\<rparr>] None"
      by (rule two_events_chain)
    show "length [\<lparr>data = [98], offsets = [''u:1'' \<mapsto> 10]\<rparr>, \<lparr>data = [97], offsets = [''u:1'' \<mapsto> 0 :: int64]\<rparr>]
            + (if (None :: error option) = None then 0 else 1) \<le> 2"
      by simp
    show "(None, [\<lparr>data = [98], offsets = [''u:1'' \<mapsto> 10]\<rparr>, \<lparr>data = [97], offsets = [''u:1'' \<mapsto> 0]\<rparr>])
            = (None, foldl (\<lambda>a event. snd (False, a @ [event])) []
                 [\<lparr>data = [98], offsets = [''u:1'' \<mapsto> 10]\<rparr>, \<lparr>data = [97], offsets = [''u:1'' \<mapsto> 0 :: int64]\<rparr>])"
      by simp
  qed
  then have "ScanIndex 2 two_events ''u:1'' (\<lambda>a event. (False, a @ [event])) [] =
     Some (None, [\<lparr>data = [98], offsets = [''u:1'' \<mapsto> 10]\<rparr>, \<lparr>data = [97], offsets = [''u:1'' \<mapsto> 0]\<rparr>])"
    by (rule ScanIndex_delivers_whole_chain [THEN iffD2])
  with two_events_chain show ?thesis by (rule conjI)
qed

text \<open>
  C7: after a successful \<open>Write(data, indexes)\<close> on a stream whose write position was
  \<open>o\<close>, \<open>tails[index] = o\<close> for every supplied index, \<open>offset\<close> is \<open>o\<close> plus the
  number of bytes written (in 64-bit arithmetic), and \<open>length\<close> has grown by exactly 1.
\<close>

theorem Write_updates:
  assumes "Write esize st body indexes = Inr (written, st')"
  shows "(\<forall>index \<in> set indexes. s_tails st' index = Some (s_offset st)) \<and>
         s_offset st' = s_offset st + of_nat written \<and>
         s_length st' = s_length st + 1"
  using Write_Inr(4) [OF assms] by (simp add: set_each_apply)

theorem Write_updates_witness:
  "\<exists>st'. Write (\<lambda>event. 2) (createOpenStream 10) [97] [''u:1'', ''t:x''] = Inr (2, st') \<and>
     s_tails st' ''u:1'' = Some 10 \<and> s_tails st' ''t:x'' = Some 10 \<and>
     s_offset st' = 12 \<and> s_length st' = 1"
proof -
  obtain st' where W: "Write (\<lambda>event. 2) (createOpenStream 10) [97] [''u:1'', ''t:x''] = Inr (2, st')"
    by (simp add: Write_def Closed_def createOpenStream_def Let_def word_sless_alt)
  from Write_updates [OF W] have "s_tails st' ''u:1'' = Some 10 \<and> s_tails st' ''t:x'' = Some 10 \<and>
     s_offset st' = 12 \<and> s_length st' = 1"
    by (simp add: createOpenStream_def)
  with W show ?thesis by blast
qed

text \<open>
  C8: in every stream built by a sequence of \<open>Write\<close> calls on a fresh stream, whatever
  the length of \<open>MAGIC_HEADER\<close>, every back-pointer of an event at a positive offset is a
  smaller offset that is not negative, and \<open>ScanIndex\<close> returns for every index label
  after at most \<open>s.length\<close> events. The codec is a parameter: every encoded event has at
  least one byte and its length fits a Go \<open>int\<close>.
\<close>

theorem chain_decreasing_ScanIndex_terminates:
  assumes es: "\<forall>event. 0 < esize event \<and> esize event < 2 ^ 63"
  shows "(\<forall>off event label v.
            s_stream (Writes esize (createOpenStream hlen) ws) off = Some event \<longrightarrow>
            offsets event label = Some v \<longrightarrow> 0 <s off \<longrightarrow> 0 \<le>s v \<and> v <s off) \<and>
         (\<exists>r. ScanIndex (s_length (Writes esize (createOpenStream hlen) ws))
                 (Writes esize (createOpenStream hlen) ws) index scanner a = Some r)"
proof -
  define st where "st = Writes esize (createOpenStream hlen) ws"
  have inv: "stream_inv st"
    unfolding st_def using es createOpenStream_inv by (rule Writes_inv)
  have dec: "0 \<le>s v \<and> v <s off"
    if "s_stream st off = Some event" "offsets event label = Some v" "0 <s off" for off event label v
  proof -
    from inv that(1,2) have "v = 0 \<or> (v <s off \<and> s_stream st v \<noteq> None)"
      unfolding stream_inv_def by blast
    then show ?thesis
    proof
      assume "v = 0"
      with that(3) show ?thesis by simp
    next
      assume v: "v <s off \<and> s_stream st v \<noteq> None"
      then obtain e' where "s_stream st v = Some e'" by auto
      with inv have "0 \<le>s v" unfolding stream_inv_def by blast
      with v show ?thesis by simp
    qed
  qed
  have "chain_within (s_length st) (s_stream st) index (case s_tails st index of Some off \<Rightarrow> off | None \<Rightarrow> 0)"
  proof (cases "s_tails st index")
    case None
    then show ?thesis by (simp add: chain_within_nonpos)
  next
    case (Some t)
    with inv obtain e' where "s_stream st t = Some e'" unfolding stream_inv_def by blast
    with inv have "chain_within (s_length st) (s_stream st) index t" unfolding stream_inv_def by blast
    with Some show ?thesis by simp
  qed
  then have "\<exists>r. ScanIndex (s_length st) st index scanner a = Some r"
    unfolding ScanIndex_def by (rule ScanIndex_loop_returns)
  with dec show ?thesis unfolding st_def by blast
qed

theorem chain_decreasing_ScanIndex_terminates_witness:
  "s_stream two_events 12 = Some \<lparr>data = [98], offsets = [''u:1'' \<mapsto> 10]\<rparr> \<and>
   (0 :: int64) <s 12 \<and> (0 :: int64) \<le>s 10 \<and> (10 :: int64) <s 12 \<and>
   (\<exists>r. ScanIndex (s_length two_events) two_events ''u:1'' (\<lambda>a event. (True, a @ [data event])) [] = Some r)"
proof -
  have es: "\<forall>event :: Event. 0 < (2::nat) \<and> (2::nat) < 2 ^ 63" by simp
  note inst = chain_decreasing_ScanIndex_terminates [OF es, of 10 "[([97], [''u:1'']), ([98], [''u:1''])]",
      folded two_events_def]
  have ev: "s_stream two_events 12 = Some \<lparr>data = [98], offsets = [''u:1'' \<mapsto> 10]\<rparr>"
    by (simp add: two_events_eq)
  have pos: "(0 :: int64) <s 12" by (simp add: word_sless_alt)
  from inst [THEN conjunct1, rule_format, OF ev _ pos, of "''u:1''" 10]
  have dec: "(0 :: int64) \<le>s 10 \<and> (10 :: int64) <s 12" by simp
  have ret: "\<exists>r. ScanIndex (s_length two_events) two_events ''u:1'' (\<lambda>a event. (True, a @ [data event])) [] = Some r"
    by (rule inst [THEN conjunct2])
  from ev pos dec ret show ?thesis by (intro conjI) simp_all
qed

section \<open>Properties of cluster.DB\<close>


lemma ops10_sel:
  "stream_New ops10 = createOpenStream 10"
  "stream_Open ops10 = Inr"
  "stream_Closed ops10 = Closed"
  "stream_Close ops10 = Close"
  "stream_Write ops10 = (\<lambda>st body indexes. Write (\<lambda>event. 2) st body (map (\<lambda>nv. label (fst nv) (snd nv)) indexes))"
  "stream_ScanIndex ops10 = spec_ScanIndex"
  "stream_Iterate ops10 = spec_Iterate 10 (\<lambda>event. 2)"
  "event_Next ops10 = (\<lambda>event name val. back_offset event (label name val))"
  by (simp_all add: ops10_def spec_stream_def)

lemma empty_dir_eq: "empty_dir = Inr db_new"
  by (simp add: empty_dir_def NewDb_def Rotate_def retrieveStream_def open_path_def Let_def
      close_current_def setCurrent_def db_new_def ops10_sel)

lemma closed_new: "Closed (createOpenStream 10) = False"
  by (simp add: Closed_def createOpenStream_def)

lemma Rotate_5: "Rotate ops10 db_new 5 0 = Inr db_5"
  by (simp add: Rotate_def retrieveStream_def open_path_def Let_def
      close_current_def setCurrent_def db_new_def db_5_def ops10_sel Close_def closed_new
      addClosed_def snapshot_def)

lemma Rotate_5_5: "Rotate ops10 db_5 5 0 = Inr db_5_5"
  by (simp add: Rotate_def retrieveStream_def open_path_def Let_def
      close_current_def setCurrent_def db_new_def db_5_def db_5_5_def ops10_sel Close_def closed_new
      addClosed_def snapshot_def)

lemma Rotate_5_1: "Rotate ops10 db_5 1 0 = Inr db_1"
  by (simp add: Rotate_def retrieveStream_def open_path_def Let_def
      close_current_def setCurrent_def db_new_def db_5_def db_1_def ops10_sel Close_def closed_new Closed_def
      addClosed_def snapshot_def)


text \<open>
  C9: a \<open>DB.Write\<close> with \<open>commit \<le> current\<close> returns a nil error and leaves the whole
  state as it was: no bytes appended, \<open>current\<close>, \<open>closed\<close>, \<open>MostRecent\<close> and the
  live stream untouched.
\<close>

theorem Write_old_commit:
  "commit \<le> db_current db \<Longrightarrow> DB_Write ops db commit body indexes timestamp = Inr db"
  by (simp add: DB_Write_def)

theorem Write_old_commit_witness:
  "(3 :: commit) \<le> db_current db_5 \<and> DB_Write ops10 db_5 3 [97] [(''u'', ''1'')] 100 = Inr db_5"
proof -
  have le: "(3 :: commit) \<le> db_current db_5" by (simp add: db_5_def)
  from le Write_old_commit [OF le] show ?thesis by (rule conjI)
qed

text \<open>
  C4 as stated fails. On a fresh directory, \<open>NewDb\<close>, \<open>Rotate(5, 0)\<close> and then
  \<open>Rotate(1, 0)\<close>: the second rotate finds the closed file of commit 1 and adopts it,
  after which \<open>current = 1\<close> is a member of \<open>closed = [1]\<close>.
\<close>

theorem current_in_closed_counterexample:
  "run ops10 empty_dir [OpRotate 5 0, OpRotate 1 0] = Inr db_1 \<and>
   db_current db_1 = 1 \<and> db_closed db_1 = [1]"
  by (simp add: empty_dir_eq Rotate_5 Rotate_5_1) (simp add: db_1_def db_5_def)

lemma addClosed_fields [simp]:
  "db_current (addClosed db c) = db_current db"
  "db_stream (addClosed db c) = db_stream db"
  "set (db_closed (addClosed db c)) = insert c (set (db_closed db))"
  by (auto simp: addClosed_def)

lemma retrieveStream_keeps:
  "db_current (snd (retrieveStream ops db commit fm)) = db_current db"
  "db_closed (snd (retrieveStream ops db commit fm)) = db_closed db"
  "db_stream (snd (retrieveStream ops db commit fm)) = db_stream db"
  by (auto simp: retrieveStream_def recover_path_def Let_def split: option.splits sum.splits)

lemma close_current_fields:
  assumes "close_current ops db commit term = Inr db'"
  shows "db_current db' = db_current db"
    and "set (db_closed db') = (if db_stream db = None then set (db_closed db)
                                else insert (db_current db) (set (db_closed db)))"
  using assms
  by (auto simp: close_current_def snapshot_def split: option.splits sum.splits)

lemma setCurrent_fields [simp]:
  "db_current (setCurrent ops db c) = c"
  "db_closed (setCurrent ops db c) = db_closed db"
  "db_stream (setCurrent ops db c) \<noteq> None"
  by (simp_all add: setCurrent_def)

lemma Rotate_cases:
  assumes "Rotate ops db commit term = Inr db'"
  shows "(db_stream db' = None \<and> db_current db' = commit \<and> commit \<in> set (db_closed db')) \<or>
         (db_stream db' \<noteq> None \<and> db_current db' = commit \<and>
          set (db_closed db') \<subseteq> insert (db_current db) (set (db_closed db)))"
proof -
  obtain r db1 where r: "retrieveStream ops db commit False = (r, db1)"
    by (cases "retrieveStream ops db commit False")
  have keep: "db_current db1 = db_current db" "db_closed db1 = db_closed db" "db_stream db1 = db_stream db"
    using retrieveStream_keeps [of ops db commit False] r by simp_all
  consider (adopt) st where "r = Inr (Some st)" "stream_Closed ops st"
      "db' = (addClosed db1 commit)\<lparr>db_stream := None, db_mockoffset := 10, db_current := commit\<rparr>"
    | (start) db2 where "close_current ops db1 commit term = Inr db2" "db' = setCurrent ops db2 commit"
    using assms r by (auto simp: Rotate_def split: sum.splits if_splits option.splits)
  then show ?thesis
  proof cases
    case adopt
    then show ?thesis by simp
  next
    case start
    from close_current_fields [OF start(1)] keep start(2) show ?thesis
      by (auto split: if_splits)
  qed
qed

lemma foldl_forgetStream_fields:
  "db_current (foldl forgetStream db cs) = db_current db"
  by (induction cs arbitrary: db) (simp_all add: forgetStream_def)

lemma foldl_addClosed_fields:
  "db_current (foldl addClosed db cs) = db_current db"
  "set (db_closed (foldl addClosed db cs)) = set (db_closed db) \<union> set cs"
  by (induction cs arbitrary: db) auto

text \<open>
  C4 (amended): \<open>Write\<close> changes neither \<open>current\<close> nor \<open>closed\<close>; \<open>Compress\<close> keeps
  \<open>current\<close> and only removes commits from \<open>closed\<close>; \<open>Recovery\<close> sets \<open>current\<close> to
  the saved commit and adds the saved closed commits to \<open>closed\<close>; a \<open>Rotate(commit)\<close>
  that starts a new stream leaves \<open>current\<close> outside \<open>closed\<close> whenever \<open>commit\<close> is
  neither in \<open>closed\<close> nor the previous \<open>current\<close>; and a \<open>Rotate(commit)\<close> that adopts
  a closed file leaves \<open>current = commit\<close> a member of \<open>closed\<close>.
\<close>

theorem current_closed_steps:
  "(DB_Write ops db commit body indexes timestamp = Inr db' \<longrightarrow>
      db_current db' = db_current db \<and> db_closed db' = db_closed db) \<and>
   (db_current (Compress db start stop) = db_current db \<and>
      set (db_closed (Compress db start stop)) \<subseteq> set (db_closed db)) \<and>
   (db_current (Recovery ops db blob) = fst blob \<and>
      set (db_closed (Recovery ops db blob)) = set (db_closed db) \<union> set (snd (snd blob))) \<and>
   (Rotate ops db commit term = Inr db' \<longrightarrow> db_stream db' \<noteq> None \<longrightarrow>
      commit \<notin> set (db_closed db) \<longrightarrow> commit \<noteq> db_current db \<longrightarrow>
      db_current db' \<notin> set (db_closed db')) \<and>
   (Rotate ops db commit term = Inr db' \<longrightarrow> db_stream db' = None \<longrightarrow>
      db_current db' = commit \<and> db_current db' \<in> set (db_closed db'))"
proof (intro conjI impI)
  assume "DB_Write ops db commit body indexes timestamp = Inr db'"
  then show "db_current db' = db_current db" "db_closed db' = db_closed db"
    by (auto simp: DB_Write_def split: if_splits option.splits sum.splits)
next
  show "db_current (Compress db start stop) = db_current db"
    by (simp add: Compress_def Let_def forgetStream_def foldl_forgetStream_fields split: option.splits)
  show "set (db_closed (Compress db start stop)) \<subseteq> set (db_closed db)"
    by (auto simp: Compress_def Let_def)
next
  show "db_current (Recovery ops db blob) = fst blob"
    by (simp add: Recovery_def foldl_addClosed_fields)
  show "set (db_closed (Recovery ops db blob)) = set (db_closed db) \<union> set (snd (snd blob))"
    by (simp add: Recovery_def foldl_addClosed_fields)
next
  assume "Rotate ops db commit term = Inr db'" "db_stream db' \<noteq> None"
    "commit \<notin> set (db_closed db)" "commit \<noteq> db_current db"
  with Rotate_cases [of ops db commit "term" db'] show "db_current db' \<notin> set (db_closed db')"
    by auto
next
  assume "Rotate ops db commit term = Inr db'" "db_stream db' = None"
  with Rotate_cases [of ops db commit "term" db']
  show "db_current db' = commit" "db_current db' \<in> set (db_closed db')"
    by auto
qed


theorem current_closed_steps_witness:
  "Rotate ops10 db_new 5 0 = Inr db_5 \<and> db_current db_5 \<notin> set (db_closed db_5) \<and>
   Rotate ops10 db_5 1 0 = Inr db_1 \<and> db_current db_1 \<in> set (db_closed db_1)"
proof -
  have a: "db_stream db_5 \<noteq> None" "5 \<notin> set (db_closed db_new)" "5 \<noteq> db_current db_new"
    by (simp_all add: db_5_def db_new_def)
  have b: "db_stream db_1 = None"
    by (simp add: db_1_def)
  from current_closed_steps [of ops10 db_new 5 _ _ _ db_5 _ _ _ 0] Rotate_5 a
  have 1: "db_current db_5 \<notin> set (db_closed db_5)" by blast
  from current_closed_steps [of ops10 db_5 1 _ _ _ db_1 _ _ _ 0] Rotate_5_1 b
  have 2: "db_current db_1 \<in> set (db_closed db_1)" by blast
  from Rotate_5 1 Rotate_5_1 2 show ?thesis by (intro conjI)
qed

lemma retrieveStream_cached:
  assumes "db_stream db = None \<or> db_current db \<noteq> commit"
    and "fst (retrieveStream ops db commit False) = Inr (Some st)"
  shows "db_streams (snd (retrieveStream ops db commit False)) commit = Some st"
  using assms
  by (auto simp: retrieveStream_def Let_def split: if_splits option.splits)

lemma retrieveStream_hit:
  assumes "db_stream db = None" "db_streams db commit = Some st"
  shows "retrieveStream ops db commit fm = (Inr (Some st), db)"
  using assms by (simp add: retrieveStream_def)

lemma retrieveStream_found:
  assumes live: "db_stream db = None \<or> db_current db \<noteq> commit"
    and found: "db_streams db commit = Some st \<or>
                (db_streams db commit = None \<and>
                 (\<exists>n. disk db commit = Some n \<and> stream_Open ops (files db n) = Inr st))"
    and closed: "stream_Closed ops st"
  shows "fst (retrieveStream ops db commit False) = Inr (Some st)"
  using assms
  by (auto simp: retrieveStream_def open_path_def Let_def)

text \<open>
  C5 (amended): when a closed stream file at \<open>commit\<close> exists, in the stream cache or
  on disk, and \<open>commit\<close> is not the commit of the live stream, \<open>Rotate(commit, term)\<close>
  succeeds and applying it a second time leaves the whole state as the first
  application left it (the replay path).
\<close>

theorem Rotate_replay_idempotent:
  assumes live: "db_stream db = None \<or> db_current db \<noteq> commit"
    and found: "db_streams db commit = Some st \<or>
                (db_streams db commit = None \<and>
                 (\<exists>n. disk db commit = Some n \<and> stream_Open ops (files db n) = Inr st))"
    and closed: "stream_Closed ops st"
  shows "\<exists>db'. Rotate ops db commit term = Inr db' \<and> Rotate ops db' commit term = Inr db'"
proof -
  have found': "fst (retrieveStream ops db commit False) = Inr (Some st)"
    using live found closed by (rule retrieveStream_found)
  define db1 where "db1 = snd (retrieveStream ops db commit False)"
  define db' where "db' = (addClosed db1 commit)\<lparr>db_stream := None, db_mockoffset := 10, db_current := commit\<rparr>"
  have r: "retrieveStream ops db commit False = (Inr (Some st), db1)"
    using found' by (simp add: db1_def prod_eq_iff)
  have once: "Rotate ops db commit term = Inr db'"
    using r closed by (simp add: Rotate_def db'_def)
  have cached: "db_streams db' commit = Some st"
    using retrieveStream_cached [OF live found'] by (simp add: db'_def db1_def addClosed_def)
  have "db_stream db' = None" by (simp add: db'_def)
  then have r': "retrieveStream ops db' commit False = (Inr (Some st), db')"
    using cached by (rule retrieveStream_hit)
  have "commit \<in> set (db_closed db')"
    by (simp add: db'_def)
  then have "(addClosed db' commit)\<lparr>db_stream := None, db_mockoffset := 10, db_current := commit\<rparr> = db'"
    by (simp add: addClosed_def db'_def)
  then have "Rotate ops db' commit term = Inr db'"
    using r' closed by (simp add: Rotate_def)
  with once show ?thesis by blast
qed

theorem Rotate_replay_idempotent_witness:
  "Rotate ops10 db_5 1 0 = Inr db_1 \<and> Rotate ops10 db_1 1 0 = Inr db_1"
proof -
  have live: "db_stream db_5 = None \<or> db_current db_5 \<noteq> 1"
    by (simp add: db_5_def)
  have found: "db_streams db_5 1 = Some ((createOpenStream 10)\<lparr>s_closed := True\<rparr>) \<or>
      (db_streams db_5 1 = None \<and>
       (\<exists>n. disk db_5 1 = Some n \<and>
            stream_Open ops10 (files db_5 n) = Inr ((createOpenStream 10)\<lparr>s_closed := True\<rparr>)))"
    by (simp add: db_5_def db_new_def ops10_sel)
  have closed: "stream_Closed ops10 ((createOpenStream 10)\<lparr>s_closed := True\<rparr>)"
    by (simp add: ops10_sel Closed_def)
  from Rotate_replay_idempotent [OF live found closed, of 0] show ?thesis
    by (auto simp: Rotate_5_1)
qed

text \<open>
  C5 as stated fails on the path that starts a new stream. On a fresh directory,
  \<open>Rotate(5, 0)\<close> once leaves \<open>closed = [1]\<close>; the second \<open>Rotate(5, 0)\<close> closes the
  stream the first one started and leaves \<open>closed = [1, 5]\<close>.
\<close>

theorem Rotate_twice_counterexample:
  "empty_dir = Inr db_new \<and> Rotate ops10 db_new 5 0 = Inr db_5 \<and> Rotate ops10 db_5 5 0 = Inr db_5_5 \<and>
   db_closed db_5 = [1] \<and> db_closed db_5_5 = [1, 5]"
  by (simp add: empty_dir_eq Rotate_5 Rotate_5_5) (simp add: db_5_def db_5_5_def)




lemma run_s1:
  "run ops10 empty_dir
     [OpWrite 2 [97] [(''u'', ''1'')] 100,
      OpWrite 3 [98] [(''u'', ''1''), (''t'', ''x'')] 200,
      OpWrite 4 [99] [(''t'', ''x'')] 150] = Inr db_s1"
  by (simp add: empty_dir_eq DB_Write_def db_new_def ops10_sel Write_def Closed_def
        createOpenStream_def label_def newEvent_def Let_def word_sless_alt word_le_nat_alt
        db_s1_def s1_stream_def)

lemma live_s1: "retrieveStream ops10 db_s1 1 fm = (Inr (Some s1_stream), db_s1)"
  by (simp add: retrieveStream_def db_s1_def db_new_def)

lemma parse_empty_s1: "parseContinuation db_s1 '''' reverse = (1, 0)"
  by (simp add: parseContinuation_def db_s1_def db_new_def)

lemma next_s1: "next db_s1 1 = 0"
  by (simp add: next_def db_s1_def db_new_def)

lemma prev_s1: "prev db_s1 1 = 0"
  by (simp add: prev_def db_s1_def db_new_def)

lemma iterate_all_s1:
  "spec_Iterate 10 (\<lambda>event. 2) s1_stream 0 (Iterate_closure (collect 20)) (False, []) =
     ((0, None), (False, [[97], [98], [99]]))"
  by (simp add: spec_Iterate_def s1_stream_def pullEvent_def Iterate_closure_def collect_def Let_def)

text \<open>
  C2 as stated fails. In scenario S1 the live stream of commit 1 ends at offset 16 and no
  next commit exists; an \<open>Iterate\<close> that is never stopped returns the empty cursor, not
  \<open>1:16\<close>.
\<close>

lemma Iterate_all_s1:
  "Iterate ops10 db_s1 '''' (collect 20) [] = Inr ('''', [[97], [98], [99]], db_s1)"
  by (simp add: Iterate_def parse_empty_s1 Iterate_loop.simps live_s1 ops10_sel iterate_all_s1
        next_s1 buildContinuation_def)

lemma tail_cursor_s1:
  "buildContinuation (db_current db_s1) (s_offset (files db_s1 0)) = ''1:16''"
  by (simp add: db_s1_def db_new_def s1_stream_def buildContinuation_def Sprint_int64_def
        decimal.simps word_sless_alt)

theorem Iterate_cursor_counterexample:
  "run ops10 empty_dir
     [OpWrite 2 [97] [(''u'', ''1'')] 100,
      OpWrite 3 [98] [(''u'', ''1''), (''t'', ''x'')] 200,
      OpWrite 4 [99] [(''t'', ''x'')] 150] = Inr db_s1 \<and>
   db_stream db_s1 = Some 0 \<and>
   buildContinuation (db_current db_s1) (s_offset (files db_s1 0)) = ''1:16'' \<and>
   Iterate ops10 db_s1 '''' (collect 20) [] = Inr ('''', [[97], [98], [99]], db_s1)"
proof -
  have "db_stream db_s1 = Some 0"
    by (simp add: db_s1_def db_new_def)
  with run_s1 tail_cursor_s1 Iterate_all_s1 show ?thesis by (intro conjI)
qed

lemma Iterate_loop_ends:
  "Iterate_loop ops scanner db commit offset stopped a = Inr (commit', offset', stopped', a', db') \<Longrightarrow>
   stopped' \<or> commit' = 0"
proof (induction ops scanner db commit offset stopped a rule: Iterate_loop.induct)
  case (1 ops scanner db commit offset stopped a)
  show ?case
  proof (cases "\<not> stopped \<and> 0 < commit")
    case False
    with "1.prems" have "commit' = commit" "stopped' = stopped"
      by (simp_all add: Iterate_loop.simps)
    with False show ?thesis by (auto simp: word_gt_0)
  next
    case True
    from "1.prems" True obtain st where st: "fst (retrieveStream ops db commit True) = Inr (Some st)"
      by (auto simp: Iterate_loop.simps [of ops scanner db commit] split: sum.splits option.splits)
    obtain off' err captured where it:
      "stream_Iterate ops st offset (Iterate_closure scanner) (stopped, a) = ((off', err), captured)"
      by (cases "stream_Iterate ops st offset (Iterate_closure scanner) (stopped, a)") auto
    from "1.prems" True st it have err: "err = None"
      by (auto simp: Iterate_loop.simps [of ops scanner db commit] split: option.splits)
    show ?thesis
    proof (cases "fst captured")
      case stop: True
      with "1.prems" True st it err have "stopped' = fst captured"
        by (simp add: Iterate_loop.simps [of ops scanner db commit])
      with stop show ?thesis by simp
    next
      case False
      with "1.prems" True st it err have
        "Iterate_loop ops scanner (snd (retrieveStream ops db commit True))
           (next (snd (retrieveStream ops db commit True)) commit) 0 (fst captured) (snd captured)
         = Inr (commit', offset', stopped', a', db')"
        by (simp add: Iterate_loop.simps [of ops scanner db commit])
      with "1.IH" [OF True st refl it [symmetric] refl err False] show ?thesis
        by simp
    qed
  qed
qed

text \<open>
  C2 (amended): whenever the loop of \<open>DB.Iterate\<close> ends without the scanner having
  stopped it, no next commit exists (\<open>commit\<close> is 0) and the returned cursor is the
  empty string; a later \<open>Iterate\<close> with that cursor starts again at offset 0 of the
  first commit of \<open>closed\<close>, or of \<open>current\<close> when no commit is closed.
\<close>

theorem Iterate_exhausted_cursor:
  assumes "Iterate_loop ops scanner db (fst (parseContinuation db continuation False))
             (snd (parseContinuation db continuation False)) False a
           = Inr (commit, offset, stopped, a', db')"
    and "\<not> stopped"
  shows "commit = 0 \<and> Iterate ops db continuation scanner a = Inr ('''', a', db') \<and>
         parseContinuation db' '''' False =
           (if db_closed db' \<noteq> [] then hd (db_closed db') else db_current db', 0)"
proof -
  from Iterate_loop_ends [OF assms(1)] assms(2) have "commit = 0" by simp
  then show ?thesis using assms(1)
    by (simp add: Iterate_def buildContinuation_def parseContinuation_def)
qed


lemma parse_1_0: "parseContinuation db ''1:0'' reverse = (1, 0)"
  by (simp add: parseContinuation_def SplitN2_def ParseUint_def ParseInt_def digit_value_def)

lemma parse_1_10: "parseContinuation db ''1:10'' reverse = (1, 10)"
  by (simp add: parseContinuation_def SplitN2_def ParseUint_def ParseInt_def digit_value_def)

lemma scan_first_s1:
  "spec_ScanIndex s1_stream ''u'' ''1'' 0 (Scan_closure ops10 ''u'' ''1'' (collect 1)) (0, False, []) =
     (None, (10, True, [[98]]))"
  by (simp add: spec_ScanIndex_def s1_stream_def label_def pullEvent_def Scan_closure_def collect_def
        Let_def ops10_sel back_offset_def word_sless_alt)

lemma scan_all_s1:
  "spec_ScanIndex s1_stream ''u'' ''1'' 0 (Scan_closure ops10 ''u'' ''1'' (collect 20)) (0, False, []) =
     (None, (0, False, [[98], [97]]))"
  by (simp add: spec_ScanIndex_def s1_stream_def label_def pullEvent_def Scan_closure_def collect_def
        Let_def ops10_sel back_offset_def word_sless_alt)

lemma scan_rest_s1:
  "spec_ScanIndex s1_stream ''u'' ''1'' 10 (Scan_closure ops10 ''u'' ''1'' (collect 20)) (10, False, []) =
     (None, (0, False, [[97]]))"
  by (simp add: spec_ScanIndex_def s1_stream_def label_def pullEvent_def Scan_closure_def collect_def
        Let_def ops10_sel back_offset_def word_sless_alt)

lemma Scan_first: "Scan ops10 db_s1 ''u'' ''1'' '''' (collect 1) [] = Inr (''1:0'', [[98]], db_s1)"
  by (simp add: Scan_def parse_empty_s1 Scan_loop.simps live_s1 ops10_sel scan_first_s1 [unfolded One_nat_def]
        buildContinuation_def Sprint_int64_def decimal.simps word_sless_alt)

lemma Scan_resumed: "Scan ops10 db_s1 ''u'' ''1'' ''1:0'' (collect 20) [] = Inr ('''', [[98], [97]], db_s1)"
  by (simp add: Scan_def parse_1_0 Scan_loop.simps live_s1 ops10_sel scan_all_s1 prev_s1
        buildContinuation_def)

lemma Scan_single: "Scan ops10 db_s1 ''u'' ''1'' '''' (collect 20) [] = Inr ('''', [[98], [97]], db_s1)"
  by (simp add: Scan_def parse_empty_s1 Scan_loop.simps live_s1 ops10_sel scan_all_s1 prev_s1
        buildContinuation_def)

lemma Scan_from_position: "Scan ops10 db_s1 ''u'' ''1'' ''1:10'' (collect 20) [] = Inr ('''', [[97]], db_s1)"
  by (simp add: Scan_def parse_1_10 Scan_loop.simps live_s1 ops10_sel scan_rest_s1 prev_s1
        buildContinuation_def)

text \<open>
  C1: the code at the failing input. In scenario S1 the events \<open>a\<close> (offset 10) and
  \<open>b\<close> (offset 12) carry \<open>u:1\<close>. A scan that stops after one event delivers \<open>b\<close>
  and returns the cursor \<open>1:0\<close>, not \<open>1:10\<close>; resuming from \<open>1:0\<close> starts at the
  tail again and delivers \<open>b\<close>, \<open>a\<close>, so the two calls give \<open>b\<close>, \<open>b\<close>, \<open>a\<close>
  where the single call gives \<open>b\<close>, \<open>a\<close>. Resuming from \<open>1:10\<close> would deliver
  exactly the remaining \<open>a\<close>.
\<close>

theorem Scan_cursor_drops_offset:
  "run ops10 empty_dir
     [OpWrite 2 [97] [(''u'', ''1'')] 100,
      OpWrite 3 [98] [(''u'', ''1''), (''t'', ''x'')] 200,
      OpWrite 4 [99] [(''t'', ''x'')] 150] = Inr db_s1 \<and>
   Scan ops10 db_s1 ''u'' ''1'' '''' (collect 1) [] = Inr (''1:0'', [[98]], db_s1) \<and>
   Scan ops10 db_s1 ''u'' ''1'' ''1:0'' (collect 20) [] = Inr ('''', [[98], [97]], db_s1) \<and>
   Scan ops10 db_s1 ''u'' ''1'' '''' (collect 20) [] = Inr ('''', [[98], [97]], db_s1) \<and>
   Scan ops10 db_s1 ''u'' ''1'' ''1:10'' (collect 20) [] = Inr ('''', [[97]], db_s1)"
  using run_s1 Scan_first Scan_resumed Scan_single Scan_from_position by (intro conjI)

lemma iterate_loop_s1:
  "Iterate_loop ops10 (collect 20) db_s1 1 0 False [] = Inr (0, 0, False, [[97], [98], [99]], db_s1)"
  by (simp add: Iterate_loop.simps live_s1 ops10_sel iterate_all_s1 next_s1)

theorem Iterate_exhausted_cursor_witness:
  "Iterate_loop ops10 (collect 20) db_s1 1 0 False [] = Inr (0, 0, False, [[97], [98], [99]], db_s1) \<and>
   Iterate ops10 db_s1 '''' (collect 20) [] = Inr ('''', [[97], [98], [99]], db_s1) \<and>
   parseContinuation db_s1 '''' False = (1, 0)"
proof -
  have loop: "Iterate_loop ops10 (collect 20) db_s1 (fst (parseContinuation db_s1 '''' False))
      (snd (parseContinuation db_s1 '''' False)) False [] = Inr (0, 0, False, [[97], [98], [99]], db_s1)"
    by (simp add: parse_empty_s1 iterate_loop_s1)
  from Iterate_exhausted_cursor [OF loop] iterate_loop_s1 parse_empty_s1 show ?thesis
    by simp
qed

end
